theory Spec2Isabelle
  imports Main "HOL-Library.Multiset"
begin

section \<open>Python values\<close>

text \<open>
  A Python \<open>str\<close> is a sequence of Unicode code points, so a string is a list of
  code points here. \<open>ascii\<close> turns an ASCII literal into one; the two non-ASCII
  characters of the sources are written as numbers: the bullet U+2022 is 8226, the
  dash U+2014 is 8212. The newline is 10.
\<close>

type_synonym pystr = "nat list"

definition ascii :: "string \<Rightarrow> pystr" where
  "ascii s = map of_char s"

text \<open>\<open>str.isspace\<close> of one character: the characters \<open>str.strip()\<close> removes.\<close>

definition isspace :: "nat \<Rightarrow> bool" where
  "isspace c =
     ((9 \<le> c \<and> c \<le> 13) \<or> (28 \<le> c \<and> c \<le> 32) \<or> c = 133 \<or> c = 160 \<or> c = 5760 \<or>
      (8192 \<le> c \<and> c \<le> 8202) \<or> c = 8232 \<or> c = 8233 \<or> c = 8239 \<or> c = 8287 \<or>
      c = 12288)"

definition strip :: "pystr \<Rightarrow> pystr" where
  "strip s = rev (dropWhile isspace (rev (dropWhile isspace s)))"

text \<open>\<open>s.startswith(p)\<close>, and \<open>s.startswith((p1, p2, ...))\<close> with a tuple.\<close>

definition startswith :: "pystr \<Rightarrow> pystr \<Rightarrow> bool" where
  "startswith s p = (take (length p) s = p)"

definition startswith_any :: "pystr \<Rightarrow> pystr list \<Rightarrow> bool" where
  "startswith_any s ps = list_ex (startswith s) ps"

text \<open>\<open>s.split(sep)\<close> for a one-character separator: never an empty list.\<close>

fun split_on :: "nat \<Rightarrow> pystr \<Rightarrow> pystr list" where
  "split_on sep [] = [[]]"
| "split_on sep (c # cs) =
     (if c = sep then [] # split_on sep cs
      else (case split_on sep cs of
              [] \<Rightarrow> [[c]]
            | l # ls \<Rightarrow> (c # l) # ls))"

text \<open>
  What \<open>json.loads\<close> returns. An object is the list of its items. Numbers with a
  fraction are left out: nothing below looks inside a number.
\<close>

datatype json =
    JNull
  | JBool bool
  | JInt int
  | JStr pystr
  | JList "json list"
  | JObj "(pystr \<times> json) list"

text \<open>Python truth of a value, as \<open>if fallacies:\<close> tests it.\<close>

fun truthy :: "json \<Rightarrow> bool" where
  "truthy JNull = False"
| "truthy (JBool b) = b"
| "truthy (JInt i) = (i \<noteq> 0)"
| "truthy (JStr s) = (s \<noteq> [])"
| "truthy (JList xs) = (xs \<noteq> [])"
| "truthy (JObj kvs) = (kvs \<noteq> [])"

text \<open>\<open>{k: v, **d}\<close>: the items of \<open>d\<close> are stored into a dict that starts as \<open>{k: v}\<close>;
  storing under a key that is there keeps its place.\<close>

fun dict_set :: "pystr \<Rightarrow> json \<Rightarrow> (pystr \<times> json) list \<Rightarrow> (pystr \<times> json) list" where
  "dict_set k v [] = [(k, v)]"
| "dict_set k v (p # ps) = (if fst p = k then (k, v) # ps else p # dict_set k v ps)"

definition dict_merge :: "(pystr \<times> json) list \<Rightarrow> (pystr \<times> json) list \<Rightarrow> (pystr \<times> json) list" where
  "dict_merge d e = foldl (\<lambda>acc p. dict_set (fst p) (snd p) acc) d e"

section \<open>The session state (models/state.py)\<close>

datatype msg_type = HumanMessage | AIMessage

text \<open>
  A message may carry an identifier. The nodes of this program build every message without
  one (\<open>mid = None\<close>).
\<close>

record message =
  mtype :: msg_type
  content :: pystr
  mid :: "pystr option"

record DebateSession =
  topic :: pystr
  user_position :: pystr
  round_number :: int
  dialogue_history :: "message list"
  logical_fallacies_found :: "json list"
  argument_scores :: "json list"
  devil_advocate_args :: "pystr list"
  socratic_questions :: "pystr list"
  coaching_tips :: "pystr list"
  verdict :: pystr

text \<open>\<open>_append\<close>: \<open>return existing + new\<close>.\<close>

definition state_append :: "'a list \<Rightarrow> 'a list \<Rightarrow> 'a list" where
  "state_append existing new = existing @ new"

text \<open>
  Modelled from the spec: the reducer of \<open>dialogue_history\<close>, \<open>add_messages\<close>, is
  imported from the graph library; its code is not part of this repository. Section 4.1
  of the specification words it as append-distinct-by-id: like append, but an incoming
  element whose id matches an existing element replaces it in place rather than
  duplicating. A message of this program may have no id: such a message matches no
  element and is appended. Where the id of the incoming message is held by several
  elements, the last of them is replaced. \<open>upsert\<close> merges one incoming message.
\<close>

fun upsert :: "message \<Rightarrow> message list \<Rightarrow> message list" where
  "upsert m [] = [m]"
| "upsert m (x # xs) =
     (if mid m \<noteq> None \<and> mid x = mid m \<and> mid m \<notin> mid ` set xs then m # xs
      else x # upsert m xs)"

text \<open>
  Modelled from the spec: \<open>add_messages\<close> itself, whose code is not part of this
  repository: the incoming messages are merged one after the other, each as \<open>upsert\<close>
  does.
\<close>

definition add_messages :: "message list \<Rightarrow> message list \<Rightarrow> message list" where
  "add_messages existing new = foldl (\<lambda>acc m. upsert m acc) existing new"

text \<open>
  The runs of the graph below do not rest on this definition: they take the reducer of
  \<open>dialogue_history\<close> as a parameter, so what is proved of them holds whatever the
  library's reducer does.
\<close>

section \<open>What comes from outside\<close>

text \<open>The names under which \<open>build_debate_graph\<close> adds its nodes.\<close>

datatype node_id =
    intake
  | fallacy_detector
  | devil_advocate
  | socratic_questioner
  | argument_scorer
  | increment_round
  | final_coach

text \<open>
  What the nodes get from outside is a parameter of the model:
  \<^item> \<open>chat env n state\<close> is the content of the chat model's reply when node \<open>n\<close> runs on
    \<open>state\<close> (the prompt is built from the state), \<open>None\<close> when the call raises;
  \<^item> \<open>extract_json\<close> is \<open>_extract_json\<close> (a regular expression and \<open>json.loads\<close>),
    \<open>None\<close> when it raises JSONDecodeError or ValueError;
  \<^item> \<open>dumps\<close> and \<open>dumps_indent\<close> are \<open>json.dumps(x)\<close> and \<open>json.dumps(x, indent=2)\<close>;
  \<^item> \<open>str_of_int\<close> is the text of an integer in an f-string, \<open>isdigit\<close> is
    \<open>str.isdigit\<close> of a character;
  \<^item> \<open>merge_messages\<close> is the reducer of \<open>dialogue_history\<close>, the graph library's
    \<open>add_messages\<close> (imported from \<open>langgraph.graph.message\<close>): it takes the
    messages of the history and the incoming ones and returns the new history.
  Progress is printed by the nodes; the model keeps of it only that the printing code can
  raise.
\<close>

record env =
  chat :: "node_id \<Rightarrow> DebateSession \<Rightarrow> pystr option"
  extract_json :: "pystr \<Rightarrow> json option"
  dumps :: "json \<Rightarrow> pystr"
  dumps_indent :: "json \<Rightarrow> pystr"
  str_of_int :: "int \<Rightarrow> pystr"
  isdigit :: "nat \<Rightarrow> bool"
  merge_messages :: "message list \<Rightarrow> message list \<Rightarrow> message list"

section \<open>Partial updates and their application\<close>

text \<open>
  A node returns a dict of only the fields it updates: every field is optional. The
  value under \<open>logical_fallacies_found\<close> is whatever the JSON of the reply was, so it
  is a \<open>json\<close> value and not yet a list.
\<close>

record update =
  u_topic :: "pystr option"
  u_user_position :: "pystr option"
  u_round_number :: "int option"
  u_dialogue_history :: "message list option"
  u_logical_fallacies_found :: "json option"
  u_argument_scores :: "json list option"
  u_devil_advocate_args :: "pystr list option"
  u_socratic_questions :: "pystr list option"
  u_coaching_tips :: "pystr list option"
  u_verdict :: "pystr option"

definition no_update :: update where
  "no_update =
     \<lparr>u_topic = None, u_user_position = None, u_round_number = None,
      u_dialogue_history = None, u_logical_fallacies_found = None,
      u_argument_scores = None, u_devil_advocate_args = None,
      u_socratic_questions = None, u_coaching_tips = None, u_verdict = None\<rparr>"

text \<open>
  What can stop a step: an exception that leaves a node (the chat model call raised, or the
  reply had a shape the node's code cannot handle), or the TypeError of \<open>_append\<close> on
  a value that is not a list. The fold of a group further below has one more: two members
  of the group that write the same field without reducer.
\<close>

datatype error =
    NodeFailed node_id
  | ReducerTypeError
  | InvalidUpdateError

text \<open>A field without a reducer keeps the last value written.\<close>

fun last_value :: "'a \<Rightarrow> 'a option \<Rightarrow> 'a" where
  "last_value old None = old"
| "last_value old (Some v) = v"

fun appended :: "'a list \<Rightarrow> 'a list option \<Rightarrow> 'a list" where
  "appended existing None = existing"
| "appended existing (Some new) = state_append existing new"

text \<open>\<open>existing + new\<close> raises TypeError unless \<open>new\<close> is a list.\<close>

fun appended_json :: "json list \<Rightarrow> json option \<Rightarrow> error + json list" where
  "appended_json existing None = Inr existing"
| "appended_json existing (Some (JList new)) = Inr (state_append existing new)"
| "appended_json existing (Some v) = Inl ReducerTypeError"

fun merged :: "env \<Rightarrow> message list \<Rightarrow> message list option \<Rightarrow> message list" where
  "merged env existing None = existing"
| "merged env existing (Some new) = merge_messages env existing new"

text \<open>
  The application of an update to the session: every field present in the update goes
  through the reducer that models/state.py declares for it, a field that is absent stays
  as it is.
\<close>

definition apply_update :: "env \<Rightarrow> update \<Rightarrow> DebateSession \<Rightarrow> error + DebateSession" where
  "apply_update env u s =
     (case appended_json (logical_fallacies_found s) (u_logical_fallacies_found u) of
        Inl e \<Rightarrow> Inl e
      | Inr fallacies \<Rightarrow>
          Inr \<lparr>topic = last_value (topic s) (u_topic u),
               user_position = last_value (user_position s) (u_user_position u),
               round_number = last_value (round_number s) (u_round_number u),
               dialogue_history = merged env (dialogue_history s) (u_dialogue_history u),
               logical_fallacies_found = fallacies,
               argument_scores = appended (argument_scores s) (u_argument_scores u),
               devil_advocate_args = appended (devil_advocate_args s) (u_devil_advocate_args u),
               socratic_questions = appended (socratic_questions s) (u_socratic_questions u),
               coaching_tips = appended (coaching_tips s) (u_coaching_tips u),
               verdict = last_value (verdict s) (u_verdict u)\<rparr>)"

section \<open>The nodes (agents/nodes.py)\<close>

text \<open>A message as the nodes build it: \<open>HumanMessage(content=c)\<close> and
  \<open>AIMessage(content=c)\<close>.\<close>

definition human :: "pystr \<Rightarrow> message" where
  "human c = \<lparr>mtype = HumanMessage, content = c, mid = None\<rparr>"

definition ai :: "pystr \<Rightarrow> message" where
  "ai c = \<lparr>mtype = AIMessage, content = c, mid = None\<rparr>"

definition intake_node :: "env \<Rightarrow> DebateSession \<Rightarrow> error + update" where
  "intake_node env state =
     Inr (no_update\<lparr>u_round_number := Some 1,
                    u_dialogue_history := Some [human (user_position state)]\<rparr>)"

text \<open>
  The fallacy detector prints \<open>f.get('fallacy_name', 'Unknown')\<close> and
  \<open>f.get('explanation', '')[:80]\<close> for every \<open>f\<close> in a truthy \<open>fallacies\<close>: that
  raises unless \<open>fallacies\<close> is a list of objects whose \<open>explanation\<close>, when there
  is one, can be sliced.
\<close>

fun sliceable :: "json \<Rightarrow> bool" where
  "sliceable (JStr s) = True"
| "sliceable (JList xs) = True"
| "sliceable v = False"

fun printable_fallacy :: "json \<Rightarrow> bool" where
  "printable_fallacy (JObj kvs) =
     (case map_of kvs (ascii ''explanation'') of None \<Rightarrow> True | Some v \<Rightarrow> sliceable v)"
| "printable_fallacy v = False"

fun printable_fallacies :: "json \<Rightarrow> bool" where
  "printable_fallacies (JList fs) = list_all printable_fallacy fs"
| "printable_fallacies v = False"

definition fallacy_detector_node :: "env \<Rightarrow> DebateSession \<Rightarrow> error + update" where
  "fallacy_detector_node env state =
     (case chat env fallacy_detector state of
        None \<Rightarrow> Inl (NodeFailed fallacy_detector)
      | Some reply \<Rightarrow>
          (let fallacies = (case extract_json env reply of Some j \<Rightarrow> j | None \<Rightarrow> JList [])
           in if truthy fallacies \<and> \<not> printable_fallacies fallacies
              then Inl (NodeFailed fallacy_detector)
              else Inr (no_update\<lparr>u_logical_fallacies_found := Some fallacies,
                          u_dialogue_history :=
                            Some [ai (ascii ''[Fallacy Analysis] '' @ dumps_indent env fallacies)]\<rparr>)))"

definition devil_advocate_node :: "env \<Rightarrow> DebateSession \<Rightarrow> error + update" where
  "devil_advocate_node env state =
     (case chat env devil_advocate state of
        None \<Rightarrow> Inl (NodeFailed devil_advocate)
      | Some counter_args \<Rightarrow>
          Inr (no_update\<lparr>u_devil_advocate_args := Some [counter_args],
                 u_dialogue_history :=
                   Some [ai (ascii ''[Counter-Arguments]'' @ [10] @ counter_args)]\<rparr>))"

text \<open>The questions are the stripped lines that start with a digit or with \<open>-\<close>.\<close>

definition question_line :: "env \<Rightarrow> pystr \<Rightarrow> bool" where
  "question_line env line =
     (case strip line of
        [] \<Rightarrow> False
      | c # cs \<Rightarrow> isdigit env c \<or> startswith (strip line) (ascii ''-''))"

definition socratic_questioner_node :: "env \<Rightarrow> DebateSession \<Rightarrow> error + update" where
  "socratic_questioner_node env state =
     (case chat env socratic_questioner state of
        None \<Rightarrow> Inl (NodeFailed socratic_questioner)
      | Some questions_text \<Rightarrow>
          (let questions = map strip (filter (question_line env) (split_on 10 questions_text))
           in Inr (no_update\<lparr>u_socratic_questions := Some questions,
                     u_dialogue_history :=
                       Some [ai (ascii ''[Socratic Questions]'' @ [10] @ questions_text)]\<rparr>)))"

text \<open>\<open>score.get\<close> raises unless the score is an object.\<close>

definition argument_scorer_node :: "env \<Rightarrow> DebateSession \<Rightarrow> error + update" where
  "argument_scorer_node env state =
     (case chat env argument_scorer state of
        None \<Rightarrow> Inl (NodeFailed argument_scorer)
      | Some reply \<Rightarrow>
          (let score = (case extract_json env reply of
                          Some j \<Rightarrow> j
                        | None \<Rightarrow> JObj [(ascii ''total'', JInt 0),
                                         (ascii ''summary'', JStr (ascii ''Could not parse score.''))])
           in case score of
                JObj items \<Rightarrow>
                  Inr (no_update\<lparr>u_argument_scores :=
                         Some [JObj (dict_merge [(ascii ''round'', JInt (round_number state))] items)],
                       u_dialogue_history :=
                         Some [ai (ascii ''[Score Round '' @ str_of_int env (round_number state) @
                                   ascii ''] '' @ dumps env score)]\<rparr>)
              | _ \<Rightarrow> Inl (NodeFailed argument_scorer)))"

definition increment_round_node :: "env \<Rightarrow> DebateSession \<Rightarrow> error + update" where
  "increment_round_node env state =
     (let new_round = round_number state + 1;
          refined_arg =
            ascii ''[Round '' @ str_of_int env new_round @ [32, 8212, 32] @
            ascii ''Refined position] '' @
            ascii ''Building on my earlier argument about '' @ topic state @ ascii '': '' @
            user_position state @
            ascii '' Furthermore, the evidence suggests this is inevitable.''
      in Inr (no_update\<lparr>u_round_number := Some new_round,
                u_dialogue_history := Some [human refined_arg]\<rparr>))"

text \<open>
  The coaching tips are the stripped lines of the report that start with one of six
  prefixes; the update keeps the first five.
\<close>

definition tip_prefixes :: "pystr list" where
  "tip_prefixes = [[8226], ascii ''-'', ascii ''Tip'', ascii ''1.'', ascii ''2.'', ascii ''3.'']"

definition extract_tips :: "pystr \<Rightarrow> pystr list" where
  "extract_tips report =
     map strip (filter (\<lambda>line. startswith_any (strip line) tip_prefixes) (split_on 10 report))"

definition final_coach_node :: "env \<Rightarrow> DebateSession \<Rightarrow> error + update" where
  "final_coach_node env state =
     (case chat env final_coach state of
        None \<Rightarrow> Inl (NodeFailed final_coach)
      | Some report \<Rightarrow>
          Inr (no_update\<lparr>u_verdict := Some report,
                 u_coaching_tips := Some (take 5 (extract_tips report)),
                 u_dialogue_history := Some [ai (ascii ''[Final Report]'' @ [10] @ report)]\<rparr>))"

section \<open>The graph (graph/debate_graph.py)\<close>

definition MAX_ROUNDS :: int where
  "MAX_ROUNDS = 3"

datatype label = continue | finalize

definition should_continue :: "DebateSession \<Rightarrow> label" where
  "should_continue state = (if round_number state \<ge> MAX_ROUNDS then finalize else continue)"

text \<open>\<open>build_debate_graph\<close>: the nodes in the order of the \<open>add_node\<close> calls, the edges
  in the order of the \<open>add_edge\<close> calls, and the three \<open>add_conditional_edges\<close> calls,
  each with \<open>should_continue\<close> and the same path map.\<close>

datatype vertex = START | Node node_id | END

definition nodes :: "node_id list" where
  "nodes = [intake, fallacy_detector, devil_advocate, socratic_questioner, argument_scorer,
            increment_round, final_coach]"

fun node_fn :: "env \<Rightarrow> node_id \<Rightarrow> DebateSession \<Rightarrow> error + update" where
  "node_fn env intake = intake_node env"
| "node_fn env fallacy_detector = fallacy_detector_node env"
| "node_fn env devil_advocate = devil_advocate_node env"
| "node_fn env socratic_questioner = socratic_questioner_node env"
| "node_fn env argument_scorer = argument_scorer_node env"
| "node_fn env increment_round = increment_round_node env"
| "node_fn env final_coach = final_coach_node env"

definition edges :: "(vertex \<times> vertex) list" where
  "edges =
     [(START, Node intake),
      (Node intake, Node fallacy_detector),
      (Node fallacy_detector, Node devil_advocate),
      (Node fallacy_detector, Node socratic_questioner),
      (Node fallacy_detector, Node argument_scorer),
      (Node increment_round, Node fallacy_detector),
      (Node final_coach, END)]"

definition conditional_edges :: "node_id list" where
  "conditional_edges = [devil_advocate, socratic_questioner, argument_scorer]"

fun path_map :: "label \<Rightarrow> node_id" where
  "path_map continue = increment_round"
| "path_map finalize = final_coach"

section \<open>Running the graph\<close>

text \<open>
  The compiled graph is run by the graph library, LangGraph, in steps. All the nodes
  scheduled for a step read the same state; each returns its update; the updates of the step are then
  merged into the state by the reducers, one update after the other; the nodes of the
  next step are the targets of the edges that leave the nodes that ran, each at most once.
  A conditional edge belongs to its source node: when that node has finished, the edge's
  function is called on the state the node read, with the node's own update applied, and
  the path map turns the label into the target. An exception ends the run.

  The state of a run: the session, the nodes scheduled for the next step, and the nodes
  run so far.
\<close>

record run_state =
  session :: DebateSession
  next_nodes :: "node_id list"
  ran :: "node_id list"

fun run_tasks :: "env \<Rightarrow> DebateSession \<Rightarrow> node_id list \<Rightarrow> error + (node_id \<times> update) list" where
  "run_tasks env snap [] = Inr []"
| "run_tasks env snap (n # ns) =
     (case node_fn env n snap of
        Inl e \<Rightarrow> Inl e
      | Inr u \<Rightarrow>
          (case run_tasks env snap ns of
             Inl e \<Rightarrow> Inl e
           | Inr outs \<Rightarrow> Inr ((n, u) # outs)))"

fun apply_all :: "env \<Rightarrow> update list \<Rightarrow> DebateSession \<Rightarrow> error + DebateSession" where
  "apply_all env [] s = Inr s"
| "apply_all env (u # us) s =
     (case apply_update env u s of
        Inl e \<Rightarrow> Inl e
      | Inr s' \<Rightarrow> apply_all env us s')"

text \<open>The evaluations of the conditional edges of a step: one for each node that ran and
  is the source of a conditional edge, on that node's own view of the state.\<close>

fun branch_decisions ::
  "env \<Rightarrow> DebateSession \<Rightarrow> (node_id \<times> update) list \<Rightarrow> error + (node_id \<times> label) list"
where
  "branch_decisions env snap [] = Inr []"
| "branch_decisions env snap (out # outs) =
     (if fst out \<in> set conditional_edges then
        (case apply_update env (snd out) snap of
           Inl e \<Rightarrow> Inl e
         | Inr view \<Rightarrow>
             (case branch_decisions env snap outs of
                Inl e \<Rightarrow> Inl e
              | Inr ds \<Rightarrow> Inr ((fst out, should_continue view) # ds)))
      else branch_decisions env snap outs)"

definition successors :: "vertex \<Rightarrow> node_id list" where
  "successors v =
     concat (map (\<lambda>e. case snd e of Node m \<Rightarrow> (if fst e = v then [m] else []) | _ \<Rightarrow> []) edges)"

text \<open>One step. The scheduled nodes are taken in the order of their declaration, and
  their updates are merged in that order.\<close>

definition superstep :: "env \<Rightarrow> run_state \<Rightarrow> error + run_state" where
  "superstep env st =
     (let tasks = filter (\<lambda>n. n \<in> set (next_nodes st)) nodes in
      case run_tasks env (session st) tasks of
        Inl e \<Rightarrow> Inl e
      | Inr outs \<Rightarrow>
          (case branch_decisions env (session st) outs of
             Inl e \<Rightarrow> Inl e
           | Inr ds \<Rightarrow>
               (case apply_all env (map snd outs) (session st) of
                  Inl e \<Rightarrow> Inl e
                | Inr s' \<Rightarrow>
                    Inr \<lparr>session = s',
                         next_nodes =
                           remdups (concat (map (\<lambda>n. successors (Node n)) tasks) @
                                    map (\<lambda>d. path_map (snd d)) ds),
                         ran = ran st @ tasks\<rparr>)))"

text \<open>\<open>k\<close> steps of a run; a run with no node left to schedule is over and stays as it is.\<close>

fun steps :: "nat \<Rightarrow> env \<Rightarrow> run_state \<Rightarrow> error + run_state" where
  "steps 0 env st = Inr st"
| "steps (Suc k) env st =
     (if next_nodes st = [] then Inr st
      else (case superstep env st of
              Inl e \<Rightarrow> Inl e
            | Inr st' \<Rightarrow> steps k env st'))"

text \<open>
  The fields without a reducer that an update writes, and whether two updates of a list
  write the same one.
\<close>

definition unreduced_writes :: "update \<Rightarrow> string list" where
  "unreduced_writes u =
     (if u_topic u = None then [] else [''topic'']) @
     (if u_user_position u = None then [] else [''user_position'']) @
     (if u_round_number u = None then [] else [''round_number'']) @
     (if u_verdict u = None then [] else [''verdict''])"

definition conflicting :: "update list \<Rightarrow> bool" where
  "conflicting us = (\<not> distinct (concat (map unreduced_writes us)))"

text \<open>
  Modelled from the spec: the fold of a fan-out group at the fan-in barrier. The merge of
  a step's updates is done by the graph library; its code is not part of this repository.
  Section 4.3 of the specification words it as the sequential application of each
  member's partial update in a fixed, deterministic order, not the order of completion.
  \<open>outs\<close> holds the finished members with their updates in the order in which they
  finished; \<open>order\<close> is the fixed order, a list of nodes: the updates are applied in
  the order in which their nodes stand in it. Which list the library takes is not fixed
  here; the order of declaration, which the specification names, is \<open>nodes\<close>. The
  library refuses two writes of one step to a field that has no reducer
  (\<open>InvalidUpdateError\<close>).
\<close>

definition fold_group ::
  "env \<Rightarrow> node_id list \<Rightarrow> (node_id \<times> update) list \<Rightarrow> DebateSession \<Rightarrow> error + DebateSession"
where
  "fold_group env order outs s =
     (let us = concat (map (\<lambda>n. case map_of outs n of None \<Rightarrow> [] | Some u \<Rightarrow> [u]) order)
      in if conflicting us then Inl InvalidUpdateError else apply_all env us s)"

section \<open>A session (main.py)\<close>

definition initial_state :: "pystr \<Rightarrow> pystr \<Rightarrow> DebateSession" where
  "initial_state topic0 position =
     \<lparr>topic = topic0, user_position = position, round_number = 0, dialogue_history = [],
      logical_fallacies_found = [], argument_scores = [], devil_advocate_args = [],
      socratic_questions = [], coaching_tips = [], verdict = []\<rparr>"

definition start :: "pystr \<Rightarrow> pystr \<Rightarrow> run_state" where
  "start topic0 position =
     \<lparr>session = initial_state topic0 position, next_nodes = successors START, ran = []\<rparr>"

text \<open>
  \<open>run_session\<close> streams the graph from the initial state until no node is scheduled.
  Ten steps are enough for that (the intake, three rounds of detector and fan-out with two
  increments between them, the final coach), as is proved below, so the outcome of a
  session is the state after ten steps. What \<open>run_session\<close> prints is left out.
\<close>

definition run_session :: "env \<Rightarrow> pystr \<Rightarrow> pystr \<Rightarrow> error + run_state" where
  "run_session env topic0 position = steps 10 env (start topic0 position)"

section \<open>Concrete inputs\<close>

text \<open>
  Concrete replies to run the model on: every chat call answers with the same short
  report, and \<open>_extract_json\<close> finds no JSON in it, so that the fallacies are \<open>[]\<close>
  and the score is the fallback of the scorer. The other functions are given on the values
  they meet in such a run: the two values that are dumped, the integers of one digit, the
  ASCII digits. The messages of such a run carry no identifier, and the reducer of the
  history appends them. The double quote is 34.
\<close>

definition fallback_score_text :: pystr where
  "fallback_score_text =
     ascii ''{'' @ [34] @ ascii ''total'' @ [34] @ ascii '': 0, '' @ [34] @ ascii ''summary'' @
     [34] @ ascii '': '' @ [34] @ ascii ''Could not parse score.'' @ [34] @ ascii ''}''"

definition demo_env :: env where
  "demo_env =
     \<lparr>chat = (\<lambda>n s. Some (ascii ''Tip: cite evidence'')),
      extract_json = (\<lambda>s. None),
      dumps = (\<lambda>j. fallback_score_text),
      dumps_indent = (\<lambda>j. ascii ''[]''),
      str_of_int = (\<lambda>i. if 0 \<le> i \<and> i \<le> 9 then [48 + nat i] else []),
      isdigit = (\<lambda>c. 48 \<le> c \<and> c \<le> 57),
      merge_messages = (\<lambda>existing new. existing @ new)\<rparr>"

text \<open>The same, but every reply of the chat model is the empty string.\<close>

definition mute_env :: env where
  "mute_env = demo_env\<lparr>chat := (\<lambda>n s. Some [])\<rparr>"

text \<open>A fallacy report as the detector's prompt asks for it, except for its severity, and
  an environment in which the JSON of the detector's reply is the list of that one report.\<close>

definition extreme_report :: json where
  "extreme_report =
     JObj [(ascii ''fallacy_name'', JStr (ascii ''Straw Man'')),
           (ascii ''quote'', JStr (ascii ''they want chaos'')),
           (ascii ''explanation'', JStr (ascii ''misstates the position'')),
           (ascii ''severity'', JStr (ascii ''extreme''))]"

definition extreme_env :: env where
  "extreme_env =
     demo_env\<lparr>chat := (\<lambda>n s. Some (if n = fallacy_detector then ascii ''[...]''
                                   else ascii ''Tip: cite evidence'')),
              extract_json := (\<lambda>reply. if reply = ascii ''[...]''
                                       then Some (JList [extreme_report]) else None)\<rparr>"

definition extreme_update :: update where
  "extreme_update = no_update\<lparr>u_logical_fallacies_found := Some (JList [extreme_report])\<rparr>"

text \<open>
  The same as \<open>demo_env\<close>, but the reducer of the history is \<open>add_messages\<close>; a
  history of one message that has an id; a session whose history is the message of
  \<open>intake_node\<close>, which has no id, followed by that history; two messages that
  have ids, the first the id that is in the history, the second a new one; the update that
  writes these two to the history.
\<close>

definition dedup_env :: env where
  "dedup_env = demo_env\<lparr>merge_messages := add_messages\<rparr>"

definition demo_history :: "message list" where
  "demo_history =
     [\<lparr>mtype = HumanMessage, content = ascii ''first'', mid = Some (ascii ''1'')\<rparr>]"

definition demo_session :: DebateSession where
  "demo_session =
     (initial_state [] (ascii ''ban cars''))\<lparr>dialogue_history :=
        [human (ascii ''ban cars'')] @ demo_history\<rparr>"

definition demo_messages :: "message list" where
  "demo_messages =
     [\<lparr>mtype = AIMessage, content = ascii ''second'', mid = Some (ascii ''1'')\<rparr>,
      \<lparr>mtype = AIMessage, content = ascii ''third'', mid = Some (ascii ''2'')\<rparr>]"

definition demo_update :: update where
  "demo_update = no_update\<lparr>u_dialogue_history := Some demo_messages\<rparr>"

text \<open>
  The same as \<open>demo_env\<close>, but the Socratic questioner's reply is one question; the
  updates that the three nodes of the fan-out group return in that environment on the
  initial state; these three in an order of arrival, the scorer first and the devil's
  advocate last; and the seven nodes in the order of their names.
\<close>

definition group_env :: env where
  "group_env =
     demo_env\<lparr>chat := (\<lambda>n s. Some (if n = socratic_questioner then ascii ''- Why?''
                                   else ascii ''Tip: cite evidence''))\<rparr>"

definition counter_update :: update where
  "counter_update =
     no_update\<lparr>u_devil_advocate_args := Some [ascii ''Tip: cite evidence''],
               u_dialogue_history :=
                 Some [ai (ascii ''[Counter-Arguments]'' @ [10] @ ascii ''Tip: cite evidence'')]\<rparr>"

definition questions_update :: update where
  "questions_update =
     no_update\<lparr>u_socratic_questions := Some [ascii ''- Why?''],
               u_dialogue_history :=
                 Some [ai (ascii ''[Socratic Questions]'' @ [10] @ ascii ''- Why?'')]\<rparr>"

definition score_update :: update where
  "score_update =
     no_update\<lparr>u_argument_scores :=
                 Some [JObj [(ascii ''round'', JInt 0), (ascii ''total'', JInt 0),
                             (ascii ''summary'', JStr (ascii ''Could not parse score.''))]],
               u_dialogue_history :=
                 Some [ai (ascii ''[Score Round 0] '' @ fallback_score_text)]\<rparr>"

definition demo_outs :: "(node_id \<times> update) list" where
  "demo_outs =
     [(argument_scorer, score_update), (socratic_questioner, questions_update),
      (devil_advocate, counter_update)]"

definition name_order :: "node_id list" where
  "name_order =
     [argument_scorer, devil_advocate, fallacy_detector, final_coach, increment_round, intake,
      socratic_questioner]"

section \<open>Notions used in the statements\<close>

text \<open>The fan-out group: the three nodes that follow the fallacy detector.\<close>

definition fan_out :: "node_id list" where
  "fan_out = [devil_advocate, socratic_questioner, argument_scorer]"

text \<open>The members of the group in the order in which they stand in a list of nodes; the
  update of a member, given the three updates; the messages that an update writes.\<close>

definition group_order :: "node_id list \<Rightarrow> node_id list" where
  "group_order order = filter (\<lambda>n. n \<in> set fan_out) order"

definition member_update :: "update \<Rightarrow> update \<Rightarrow> update \<Rightarrow> node_id \<Rightarrow> update" where
  "member_update a b c n =
     (if n = devil_advocate then a else if n = socratic_questioner then b else c)"

definition messages_of :: "update \<Rightarrow> message list" where
  "messages_of u = (case u_dialogue_history u of None \<Rightarrow> [] | Some ms \<Rightarrow> ms)"

text \<open>The specification's words: the severity of a fallacy report is one of high, medium,
  low.\<close>

definition severity_allowed :: "json \<Rightarrow> bool" where
  "severity_allowed report =
     (case report of
        JObj kvs \<Rightarrow>
          (case map_of kvs (ascii ''severity'') of
             Some (JStr s) \<Rightarrow> s = ascii ''high'' \<or> s = ascii ''medium'' \<or> s = ascii ''low''
           | _ \<Rightarrow> False)
      | _ \<Rightarrow> False)"

text \<open>The specification's words: a line that begins with a bullet or numbering marker,
  read generously: a bullet character, a dash, an asterisk or a digit.\<close>

definition begins_with_bullet_or_number :: "pystr \<Rightarrow> bool" where
  "begins_with_bullet_or_number line =
     (case line of
        [] \<Rightarrow> False
      | c # cs \<Rightarrow> c = 8226 \<or> c = 45 \<or> c = 42 \<or> (48 \<le> c \<and> c \<le> 57))"

text \<open>An update whose fallacies, if it has any, are a list: the only updates that
  \<open>apply_update\<close> accepts. A node call succeeds when it returns such an update, and an
  environment is well behaved when every node call succeeds.\<close>

fun list_or_absent :: "json option \<Rightarrow> bool" where
  "list_or_absent None = True"
| "list_or_absent (Some (JList xs)) = True"
| "list_or_absent (Some v) = False"

fun succeeds :: "error + update \<Rightarrow> bool" where
  "succeeds (Inl e) = False"
| "succeeds (Inr u) = list_or_absent (u_logical_fallacies_found u)"

definition well_behaved :: "env \<Rightarrow> bool" where
  "well_behaved env = (\<forall>n s. succeeds (node_fn env n s))"

text \<open>
  The states a run goes through. Until the final coach has run, the verdict and the tips
  are empty and \<open>increment_round\<close> has run one time less than the round number says.
\<close>

definition quiet :: "run_state \<Rightarrow> bool" where
  "quiet st =
     (verdict (session st) = [] \<and> coaching_tips (session st) = [] \<and>
      count_list (ran st) final_coach = 0 \<and>
      int (count_list (ran st) increment_round) = round_number (session st) - 1)"

definition before_intake :: "run_state \<Rightarrow> bool" where
  "before_intake st =
     (next_nodes st = [intake] \<and> round_number (session st) = 0 \<and> ran st = [] \<and>
      verdict (session st) = [] \<and> coaching_tips (session st) = [])"

definition in_round :: "run_state \<Rightarrow> bool" where
  "in_round st =
     ((next_nodes st = [fallacy_detector] \<or>
       next_nodes st = [devil_advocate, socratic_questioner, argument_scorer]) \<and>
      1 \<le> round_number (session st) \<and> round_number (session st) \<le> MAX_ROUNDS \<and> quiet st)"

definition between_rounds :: "run_state \<Rightarrow> bool" where
  "between_rounds st =
     (next_nodes st = [increment_round] \<and>
      1 \<le> round_number (session st) \<and> round_number (session st) < MAX_ROUNDS \<and> quiet st)"

definition finalizing :: "run_state \<Rightarrow> bool" where
  "finalizing st =
     (next_nodes st = [final_coach] \<and> round_number (session st) = MAX_ROUNDS \<and> quiet st)"

definition finished :: "env \<Rightarrow> run_state \<Rightarrow> bool" where
  "finished env st =
     (next_nodes st = [] \<and> round_number (session st) = MAX_ROUNDS \<and>
      int (count_list (ran st) increment_round) = MAX_ROUNDS - 1 \<and>
      count_list (ran st) final_coach = 1 \<and>
      (\<exists>s. chat env final_coach s = Some (verdict (session st))) \<and>
      coaching_tips (session st) = take 5 (extract_tips (verdict (session st))))"

definition run_invariant :: "env \<Rightarrow> run_state \<Rightarrow> bool" where
  "run_invariant env st =
     (before_intake st \<or> in_round st \<or> between_rounds st \<or> finalizing st \<or> finished env st)"

text \<open>The number of steps a run still has to make.\<close>

definition remaining :: "run_state \<Rightarrow> nat" where
  "remaining st =
     (if next_nodes st = [] then 0
      else if next_nodes st = [final_coach] then 1
      else if next_nodes st = [intake] then 10
      else if next_nodes st = [fallacy_detector] then 12 - 3 * nat (round_number (session st))
      else if next_nodes st = [increment_round] then 10 - 3 * nat (round_number (session st))
      else 11 - 3 * nat (round_number (session st)))"

section \<open>Updates, nodes and steps: basic facts\<close>

lemma apply_update_fields:
  assumes "apply_update env u s = Inr s'"
  shows "topic s' = last_value (topic s) (u_topic u)"
    and "user_position s' = last_value (user_position s) (u_user_position u)"
    and "round_number s' = last_value (round_number s) (u_round_number u)"
    and "verdict s' = last_value (verdict s) (u_verdict u)"
    and "coaching_tips s' = appended (coaching_tips s) (u_coaching_tips u)"
    and "argument_scores s' = appended (argument_scores s) (u_argument_scores u)"
    and "devil_advocate_args s' = appended (devil_advocate_args s) (u_devil_advocate_args u)"
    and "socratic_questions s' = appended (socratic_questions s) (u_socratic_questions u)"
    and "appended_json (logical_fallacies_found s) (u_logical_fallacies_found u) =
           Inr (logical_fallacies_found s')"
    and "dialogue_history s' = merged env (dialogue_history s) (u_dialogue_history u)"
  using assms by (auto simp: apply_update_def split: sum.splits)

lemma apply_update_total:
  "u_logical_fallacies_found u = None \<Longrightarrow> \<exists>s'. apply_update env u s = Inr s'"
  by (simp add: apply_update_def)

lemma apply_update_succeeds:
  "list_or_absent (u_logical_fallacies_found u) \<Longrightarrow> \<exists>s'. apply_update env u s = Inr s'"
  by (cases "u_logical_fallacies_found u" rule: list_or_absent.cases)
     (simp_all add: apply_update_def)

lemma node_fn_round_number:
  "node_fn env n s = Inr u \<Longrightarrow>
     u_round_number u =
       (if n = intake then Some 1
        else if n = increment_round then Some (round_number s + 1) else None)"
  by (cases n)
     (auto simp: intake_node_def fallacy_detector_node_def devil_advocate_node_def
        socratic_questioner_node_def argument_scorer_node_def increment_round_node_def
        final_coach_node_def no_update_def Let_def split: option.splits if_splits json.splits)

lemma node_fn_verdict:
  "node_fn env n s = Inr u \<Longrightarrow>
     u_verdict u = (if n = final_coach then chat env final_coach s else None)"
  by (cases n)
     (auto simp: intake_node_def fallacy_detector_node_def devil_advocate_node_def
        socratic_questioner_node_def argument_scorer_node_def increment_round_node_def
        final_coach_node_def no_update_def Let_def split: option.splits if_splits json.splits)

lemma node_fn_coaching_tips:
  "node_fn env n s = Inr u \<Longrightarrow>
     u_coaching_tips u =
       (if n = final_coach then map_option (\<lambda>r. take 5 (extract_tips r)) (chat env final_coach s)
        else None)"
  by (cases n)
     (auto simp: intake_node_def fallacy_detector_node_def devil_advocate_node_def
        socratic_questioner_node_def argument_scorer_node_def increment_round_node_def
        final_coach_node_def no_update_def Let_def split: option.splits if_splits json.splits)

lemma node_fn_fallacies:
  "node_fn env n s = Inr u \<Longrightarrow> n \<noteq> fallacy_detector \<Longrightarrow> u_logical_fallacies_found u = None"
  by (cases n)
     (auto simp: intake_node_def fallacy_detector_node_def devil_advocate_node_def
        socratic_questioner_node_def argument_scorer_node_def increment_round_node_def
        final_coach_node_def no_update_def Let_def split: option.splits if_splits json.splits)

lemma node_fn_final_reply:
  "node_fn env final_coach s = Inr u \<Longrightarrow> \<exists>r. chat env final_coach s = Some r"
  by (auto simp: final_coach_node_def split: option.splits)

lemma run_tasks_Inr:
  "run_tasks env s ns = Inr outs \<Longrightarrow>
     map fst outs = ns \<and> list_all (\<lambda>p. node_fn env (fst p) s = Inr (snd p)) outs"
  by (induction ns arbitrary: outs) (auto split: sum.splits)

lemma apply_all_single: "apply_all env [u] s = apply_update env u s"
  by (simp split: sum.splits)

lemma apply_all_frame:
  assumes "apply_all env us s = Inr s'"
    and "list_all (\<lambda>u. u_round_number u = None \<and> u_verdict u = None \<and>
            u_coaching_tips u = None) us"
  shows "round_number s' = round_number s \<and> verdict s' = verdict s \<and>
         coaching_tips s' = coaching_tips s"
  using assms
proof (induction us arbitrary: s)
  case Nil
  then show ?case by simp
next
  case (Cons u us)
  from Cons.prems(1) obtain s1 where a: "apply_update env u s = Inr s1"
    and f: "apply_all env us s1 = Inr s'"
    by (auto split: sum.splits)
  from Cons.prems(2) have q: "u_round_number u = None" "u_verdict u = None"
    "u_coaching_tips u = None"
    and r: "list_all (\<lambda>u. u_round_number u = None \<and> u_verdict u = None \<and>
            u_coaching_tips u = None) us"
    by simp_all
  from Cons.IH[OF f r] apply_update_fields[OF a] q show ?case by simp
qed

lemma branch_decisions_none:
  "list_all (\<lambda>p. fst p \<notin> set conditional_edges) outs \<Longrightarrow> branch_decisions env s outs = Inr []"
  by (induction outs) auto

lemma branch_decisions_agree:
  assumes "branch_decisions env s outs = Inr ds"
    and "list_all (\<lambda>p. u_round_number (snd p) = None) outs"
  shows "ds = map (\<lambda>n. (n, should_continue s))
               (filter (\<lambda>n. n \<in> set conditional_edges) (map fst outs))"
  using assms
proof (induction outs arbitrary: ds)
  case Nil
  then show ?case by simp
next
  case (Cons out outs)
  show ?case
  proof (cases "fst out \<in> set conditional_edges")
    case False
    with Cons show ?thesis by simp
  next
    case True
    with Cons.prems(1) obtain view ds' where v: "apply_update env (snd out) s = Inr view"
      and d: "branch_decisions env s outs = Inr ds'"
      and ds: "ds = (fst out, should_continue view) # ds'"
      by (auto split: sum.splits)
    from apply_update_fields(3)[OF v] Cons.prems(2)
    have "round_number view = round_number s" by simp
    then have "should_continue view = should_continue s"
      by (simp add: should_continue_def)
    with Cons.IH[OF d] Cons.prems(2) ds True show ?thesis by simp
  qed
qed

lemma superstep_Inr:
  assumes "superstep env st = Inr st'"
  obtains outs ds where
    "run_tasks env (session st) (filter (\<lambda>n. n \<in> set (next_nodes st)) nodes) = Inr outs"
    "branch_decisions env (session st) outs = Inr ds"
    "apply_all env (map snd outs) (session st) = Inr (session st')"
    "ran st' = ran st @ filter (\<lambda>n. n \<in> set (next_nodes st)) nodes"
    "next_nodes st' =
       remdups (concat (map (\<lambda>n. successors (Node n)) (filter (\<lambda>n. n \<in> set (next_nodes st)) nodes)) @
                map (\<lambda>d. path_map (snd d)) ds)"
  using assms by (auto simp: superstep_def Let_def split: sum.splits)

lemma distinct_nodes: "distinct nodes"
  by (simp add: nodes_def)

lemma tasks_single: "ns = [n] \<Longrightarrow> filter (\<lambda>m. m \<in> set ns) nodes = [n]"
  by (cases n) (simp_all add: nodes_def)

lemma tasks_fanout:
  "ns = [devil_advocate, socratic_questioner, argument_scorer] \<Longrightarrow>
   filter (\<lambda>m. m \<in> set ns) nodes = [devil_advocate, socratic_questioner, argument_scorer]"
  by (simp add: nodes_def)

lemma successors_simps:
  "successors START = [intake]"
  "successors (Node intake) = [fallacy_detector]"
  "successors (Node fallacy_detector) = [devil_advocate, socratic_questioner, argument_scorer]"
  "successors (Node devil_advocate) = []"
  "successors (Node socratic_questioner) = []"
  "successors (Node argument_scorer) = []"
  "successors (Node increment_round) = [fallacy_detector]"
  "successors (Node final_coach) = []"
  by (simp_all add: successors_def edges_def)

lemma single_step:
  assumes "next_nodes st = [n]" and "n \<notin> set conditional_edges"
    and "superstep env st = Inr st'"
  shows "\<exists>u. node_fn env n (session st) = Inr u \<and>
             apply_update env u (session st) = Inr (session st') \<and>
             ran st' = ran st @ [n] \<and> next_nodes st' = remdups (successors (Node n))"
proof -
  from assms(3) obtain outs ds where
    r: "run_tasks env (session st) (filter (\<lambda>n. n \<in> set (next_nodes st)) nodes) = Inr outs" and
    b: "branch_decisions env (session st) outs = Inr ds" and
    f: "apply_all env (map snd outs) (session st) = Inr (session st')" and
    s: "ran st' = ran st @ filter (\<lambda>n. n \<in> set (next_nodes st)) nodes"
       "next_nodes st' =
          remdups (concat (map (\<lambda>n. successors (Node n)) (filter (\<lambda>n. n \<in> set (next_nodes st)) nodes)) @
                   map (\<lambda>d. path_map (snd d)) ds)"
    by (rule superstep_Inr)
  note t = tasks_single[OF assms(1)]
  from r obtain u where outs: "outs = [(n, u)]" and u: "node_fn env n (session st) = Inr u"
    unfolding t by (auto split: sum.splits)
  from b outs assms(2) have ds: "ds = []"
    by simp
  from f outs have "apply_update env u (session st) = Inr (session st')"
    by (simp add: apply_all_single del: apply_all.simps)
  with s u ds show ?thesis
    unfolding t by simp
qed

lemma fanout_step:
  assumes "next_nodes st = [devil_advocate, socratic_questioner, argument_scorer]"
    and "superstep env st = Inr st'"
  shows "round_number (session st') = round_number (session st)"
    and "verdict (session st') = verdict (session st)"
    and "coaching_tips (session st') = coaching_tips (session st)"
    and "ran st' = ran st @ [devil_advocate, socratic_questioner, argument_scorer]"
    and "next_nodes st' = [path_map (should_continue (session st))]"
proof -
  from assms(2) obtain outs ds where
    r: "run_tasks env (session st) (filter (\<lambda>n. n \<in> set (next_nodes st)) nodes) = Inr outs" and
    b: "branch_decisions env (session st) outs = Inr ds" and
    f: "apply_all env (map snd outs) (session st) = Inr (session st')" and
    s: "ran st' = ran st @ filter (\<lambda>n. n \<in> set (next_nodes st)) nodes"
       "next_nodes st' =
          remdups (concat (map (\<lambda>n. successors (Node n)) (filter (\<lambda>n. n \<in> set (next_nodes st)) nodes)) @
                   map (\<lambda>d. path_map (snd d)) ds)"
    by (rule superstep_Inr)
  note t = tasks_fanout[OF assms(1)]
  from run_tasks_Inr[OF r]
  have fsts: "map fst outs = [devil_advocate, socratic_questioner, argument_scorer]"
    and fns: "list_all (\<lambda>p. node_fn env (fst p) (session st) = Inr (snd p)) outs"
    unfolding t by simp_all
  have quiet: "list_all (\<lambda>p. u_round_number (snd p) = None \<and> u_verdict (snd p) = None \<and>
                  u_coaching_tips (snd p) = None) outs"
    unfolding list_all_iff
  proof
    fix p assume p: "p \<in> set outs"
    with fns have n: "node_fn env (fst p) (session st) = Inr (snd p)"
      by (simp add: list_all_iff)
    from p have "fst p \<in> set (map fst outs)" by simp
    with fsts have "fst p \<in> {devil_advocate, socratic_questioner, argument_scorer}" by simp
    with node_fn_round_number[OF n] node_fn_verdict[OF n] node_fn_coaching_tips[OF n]
    show "u_round_number (snd p) = None \<and> u_verdict (snd p) = None \<and> u_coaching_tips (snd p) = None"
      by auto
  qed
  then have "list_all (\<lambda>u. u_round_number u = None \<and> u_verdict u = None \<and>
                  u_coaching_tips u = None) (map snd outs)"
    by (simp add: list_all_iff)
  from apply_all_frame[OF f this]
  show "round_number (session st') = round_number (session st)"
    and "verdict (session st') = verdict (session st)"
    and "coaching_tips (session st') = coaching_tips (session st)"
    by simp_all
  from s(1) show "ran st' = ran st @ [devil_advocate, socratic_questioner, argument_scorer]"
    unfolding t by simp
  from quiet have "list_all (\<lambda>p. u_round_number (snd p) = None) outs"
    by (simp add: list_all_iff)
  from branch_decisions_agree[OF b this] fsts
  have "map (\<lambda>d. path_map (snd d)) ds = replicate 3 (path_map (should_continue (session st)))"
    by (simp add: conditional_edges_def numeral_3_eq_3)
  with s(2) show "next_nodes st' = [path_map (should_continue (session st))]"
    unfolding t by (simp add: successors_simps numeral_3_eq_3)
qed

lemma single_step_fields:
  assumes "next_nodes st = [n]" and "n \<notin> set conditional_edges"
    and "superstep env st = Inr st'"
  shows "round_number (session st') =
           (if n = intake then 1
            else if n = increment_round then round_number (session st) + 1
            else round_number (session st))"
    and "n \<noteq> final_coach \<Longrightarrow> verdict (session st') = verdict (session st)"
    and "n \<noteq> final_coach \<Longrightarrow> coaching_tips (session st') = coaching_tips (session st)"
    and "n = final_coach \<Longrightarrow>
           \<exists>r. chat env final_coach (session st) = Some r \<and> verdict (session st') = r \<and>
               coaching_tips (session st') = coaching_tips (session st) @ take 5 (extract_tips r)"
    and "ran st' = ran st @ [n]"
    and "next_nodes st' = remdups (successors (Node n))"
proof -
  from single_step[OF assms] obtain u where
    u: "node_fn env n (session st) = Inr u" and
    a: "apply_update env u (session st) = Inr (session st')" and
    r: "ran st' = ran st @ [n]" and
    x: "next_nodes st' = remdups (successors (Node n))"
    by blast
  from apply_update_fields(3)[OF a] node_fn_round_number[OF u]
  show "round_number (session st') =
           (if n = intake then 1
            else if n = increment_round then round_number (session st) + 1
            else round_number (session st))"
    by simp
  from apply_update_fields(4)[OF a] node_fn_verdict[OF u]
  show "n \<noteq> final_coach \<Longrightarrow> verdict (session st') = verdict (session st)"
    by simp
  from apply_update_fields(5)[OF a] node_fn_coaching_tips[OF u]
  show "n \<noteq> final_coach \<Longrightarrow> coaching_tips (session st') = coaching_tips (session st)"
    by simp
  show "\<exists>r. chat env final_coach (session st) = Some r \<and> verdict (session st') = r \<and>
               coaching_tips (session st') = coaching_tips (session st) @ take 5 (extract_tips r)"
    if "n = final_coach"
  proof -
    from u that obtain r where c: "chat env final_coach (session st) = Some r"
      using node_fn_final_reply by blast
    with apply_update_fields(4,5)[OF a] node_fn_verdict[OF u] node_fn_coaching_tips[OF u] that
    show ?thesis by (simp add: state_append_def)
  qed
  show "ran st' = ran st @ [n]" by (rule r)
  show "next_nodes st' = remdups (successors (Node n))" by (rule x)
qed

section \<open>Every run goes through the same ten steps\<close>

lemma three_cases:
  "1 \<le> (r::int) \<Longrightarrow> r \<le> 3 \<Longrightarrow> r = 1 \<or> r = 2 \<or> r = 3"
  by arith

lemma invariant_step:
  assumes "run_invariant env st" and "next_nodes st \<noteq> []" and "superstep env st = Inr st'"
  shows "run_invariant env st' \<and> Suc (remaining st') = remaining st"
proof -
  have nc: "intake \<notin> set conditional_edges" "fallacy_detector \<notin> set conditional_edges"
    "increment_round \<notin> set conditional_edges" "final_coach \<notin> set conditional_edges"
    by (simp_all add: conditional_edges_def)
  from assms(1,2) consider
    (a) "before_intake st" | (b) "in_round st" "next_nodes st = [fallacy_detector]" |
    (c) "in_round st" "next_nodes st = [devil_advocate, socratic_questioner, argument_scorer]" |
    (d) "between_rounds st" | (e) "finalizing st"
    by (auto simp: run_invariant_def finished_def in_round_def)
  then show ?thesis
  proof cases
    case a
    then have n: "next_nodes st = [intake]" by (simp add: before_intake_def)
    from single_step_fields[OF n nc(1) assms(3)] a
    have "in_round st'" "remaining st' = 9" "remaining st = 10"
      by (simp_all add: before_intake_def in_round_def quiet_def successors_simps MAX_ROUNDS_def
            remaining_def)
    then show ?thesis by (simp add: run_invariant_def)
  next
    case b
    from single_step_fields[OF b(2) nc(2) assms(3)] b
    have "in_round st'" "Suc (remaining st') = remaining st"
      by (auto simp: in_round_def quiet_def successors_simps MAX_ROUNDS_def remaining_def)
    then show ?thesis by (simp add: run_invariant_def)
  next
    case c
    note f = fanout_step[OF c(2) assms(3)]
    show ?thesis
    proof (cases "round_number (session st) \<ge> MAX_ROUNDS")
      case True
      with f c have "finalizing st'" "Suc (remaining st') = remaining st"
        by (auto simp: in_round_def finalizing_def quiet_def should_continue_def MAX_ROUNDS_def
              remaining_def)
      then show ?thesis by (simp add: run_invariant_def)
    next
      case False
      with f c have "between_rounds st'" "Suc (remaining st') = remaining st"
        by (auto simp: in_round_def between_rounds_def quiet_def should_continue_def MAX_ROUNDS_def
              remaining_def)
      then show ?thesis by (simp add: run_invariant_def)
    qed
  next
    case d
    then have n: "next_nodes st = [increment_round]" by (simp add: between_rounds_def)
    from single_step_fields[OF n nc(3) assms(3)] d
    have "in_round st'" "Suc (remaining st') = remaining st"
      by (auto simp: in_round_def between_rounds_def quiet_def successors_simps MAX_ROUNDS_def
            remaining_def)
    then show ?thesis by (simp add: run_invariant_def)
  next
    case e
    then have n: "next_nodes st = [final_coach]" by (simp add: finalizing_def)
    from single_step_fields[OF n nc(4) assms(3)] e
    have "finished env st'" "Suc (remaining st') = remaining st"
      by (auto simp: finished_def finalizing_def quiet_def successors_simps MAX_ROUNDS_def
            remaining_def)
    then show ?thesis by (simp add: run_invariant_def)
  qed
qed

lemma invariant_start: "run_invariant env (start t p)" "remaining (start t p) = 10"
  by (simp_all add: run_invariant_def before_intake_def start_def initial_state_def
        successors_simps remaining_def)

lemma invariant_steps:
  "run_invariant env st \<Longrightarrow> steps k env st = Inr st' \<Longrightarrow>
     run_invariant env st' \<and> remaining st' = remaining st - (min k (remaining st))"
proof (induction k arbitrary: st)
  case 0
  then show ?case by simp
next
  case (Suc k)
  show ?case
  proof (cases "next_nodes st = []")
    case True
    with Suc.prems show ?thesis by (simp add: remaining_def)
  next
    case False
    with Suc.prems(2) obtain st1 where s: "superstep env st = Inr st1" and r: "steps k env st1 = Inr st'"
      by (auto split: sum.splits)
    from invariant_step[OF Suc.prems(1) False s] Suc.IH[OF _ r]
    show ?thesis by auto
  qed
qed

lemma remaining_0: "run_invariant env st \<Longrightarrow> remaining st = 0 \<Longrightarrow> next_nodes st = []"
  by (auto simp: run_invariant_def before_intake_def in_round_def between_rounds_def finalizing_def
        finished_def remaining_def MAX_ROUNDS_def split: if_splits)

lemma reach:
  assumes "steps k env (start t p) = Inr st"
  shows "run_invariant env st" and "remaining st = 10 - min k 10"
  using invariant_steps[OF invariant_start(1) assms] invariant_start(2)[of t p]
  by simp_all

lemma invariant_bounds:
  assumes "run_invariant env st"
  shows "0 \<le> round_number (session st)" and "round_number (session st) \<le> MAX_ROUNDS"
    and "next_nodes st \<noteq> [intake] \<Longrightarrow> 1 \<le> round_number (session st)"
  using assms
  by (auto simp: run_invariant_def before_intake_def in_round_def between_rounds_def
        finalizing_def finished_def MAX_ROUNDS_def)

lemma invariant_round_step:
  assumes "run_invariant env st" and "next_nodes st \<noteq> []" and "superstep env st = Inr st'"
  shows "next_nodes st = [intake] \<Longrightarrow> round_number (session st') = 1"
    and "next_nodes st = [increment_round] \<Longrightarrow>
           round_number (session st') = round_number (session st) + 1"
    and "next_nodes st \<noteq> [intake] \<Longrightarrow> next_nodes st \<noteq> [increment_round] \<Longrightarrow>
           round_number (session st') = round_number (session st)"
    and "round_number (session st) \<le> round_number (session st')"
proof -
  have nc: "intake \<notin> set conditional_edges" "fallacy_detector \<notin> set conditional_edges"
    "increment_round \<notin> set conditional_edges" "final_coach \<notin> set conditional_edges"
    by (simp_all add: conditional_edges_def)
  from assms(1,2) consider
    (a) "next_nodes st = [intake]" "round_number (session st) = 0" |
    (b) "next_nodes st = [fallacy_detector]" |
    (c) "next_nodes st = [devil_advocate, socratic_questioner, argument_scorer]" |
    (d) "next_nodes st = [increment_round]" | (e) "next_nodes st = [final_coach]"
    by (auto simp: run_invariant_def before_intake_def in_round_def between_rounds_def
          finalizing_def finished_def)
  then have "(next_nodes st = [intake] \<longrightarrow> round_number (session st') = 1) \<and>
     (next_nodes st = [increment_round] \<longrightarrow>
           round_number (session st') = round_number (session st) + 1) \<and>
     (next_nodes st \<noteq> [intake] \<longrightarrow> next_nodes st \<noteq> [increment_round] \<longrightarrow>
           round_number (session st') = round_number (session st)) \<and>
     round_number (session st) \<le> round_number (session st')"
  proof cases
    case a
    with single_step_fields(1)[OF a(1) nc(1) assms(3)] show ?thesis by simp
  next
    case b
    with single_step_fields(1)[OF b nc(2) assms(3)] show ?thesis by simp
  next
    case c
    with fanout_step(1)[OF c assms(3)] show ?thesis by simp
  next
    case d
    with single_step_fields(1)[OF d nc(3) assms(3)] show ?thesis by simp
  next
    case e
    with single_step_fields(1)[OF e nc(4) assms(3)] show ?thesis by simp
  qed
  then show "next_nodes st = [intake] \<Longrightarrow> round_number (session st') = 1"
    and "next_nodes st = [increment_round] \<Longrightarrow>
           round_number (session st') = round_number (session st) + 1"
    and "next_nodes st \<noteq> [intake] \<Longrightarrow> next_nodes st \<noteq> [increment_round] \<Longrightarrow>
           round_number (session st') = round_number (session st)"
    and "round_number (session st) \<le> round_number (session st')"
    by simp_all
qed

lemma invariant_finished:
  assumes "run_invariant env st" and "next_nodes st = []"
  shows "finished env st"
  using assms
  by (auto simp: run_invariant_def before_intake_def in_round_def between_rounds_def
        finalizing_def)

lemma invariant_increment_scheduled:
  assumes "run_invariant env st" and "increment_round \<in> set (next_nodes st)"
  shows "round_number (session st) < MAX_ROUNDS"
  using assms
  by (auto simp: run_invariant_def before_intake_def in_round_def between_rounds_def
        finalizing_def finished_def)

lemma invariant_verdict:
  assumes "run_invariant env st"
  shows "count_list (ran st) final_coach = 0 \<Longrightarrow>
           verdict (session st) = [] \<and> coaching_tips (session st) = []"
    and "count_list (ran st) final_coach \<le> 1"
    and "count_list (ran st) final_coach = 1 \<longleftrightarrow> next_nodes st = []"
    and "next_nodes st \<noteq> [] \<Longrightarrow> verdict (session st) = [] \<and> coaching_tips (session st) = []"
  using assms
  by (auto simp: run_invariant_def before_intake_def in_round_def between_rounds_def
        finalizing_def finished_def quiet_def)

lemma steps_finished: "next_nodes st = [] \<Longrightarrow> steps j env st = Inr st"
  by (cases j) simp_all

lemma position_6:
  assumes "run_invariant env st" and "remaining st = 4"
  shows "next_nodes st = [increment_round]" and "round_number (session st) = 2"
proof -
  have r: "1 \<le> round_number (session st) \<Longrightarrow> round_number (session st) \<le> 3 \<Longrightarrow>
     round_number (session st) = 1 \<or> round_number (session st) = 2 \<or> round_number (session st) = 3"
    by arith
  from assms show "next_nodes st = [increment_round]" and "round_number (session st) = 2"
    by (auto simp: run_invariant_def before_intake_def in_round_def between_rounds_def
          finalizing_def finished_def remaining_def MAX_ROUNDS_def split: if_splits dest: r)
qed

lemma position_last_fan_out:
  assumes "run_invariant env st" and "remaining st = 2"
  shows "next_nodes st = fan_out" and "round_number (session st) = 3"
  using assms
  by (auto simp: run_invariant_def before_intake_def in_round_def between_rounds_def
        finalizing_def finished_def remaining_def MAX_ROUNDS_def fan_out_def
        split: if_splits dest: three_cases)

section \<open>Runs in which every node call succeeds\<close>

lemma run_tasks_succeeds:
  "well_behaved env \<Longrightarrow>
     \<exists>outs. run_tasks env s ns = Inr outs \<and>
            list_all (\<lambda>p. list_or_absent (u_logical_fallacies_found (snd p))) outs"
proof (induction ns)
  case Nil
  then show ?case by simp
next
  case (Cons n ns)
  from Cons.prems have "succeeds (node_fn env n s)"
    by (simp add: well_behaved_def)
  then obtain u where "node_fn env n s = Inr u" "list_or_absent (u_logical_fallacies_found u)"
    by (cases "node_fn env n s") auto
  with Cons.IH[OF Cons.prems] show ?case by auto
qed

lemma branch_decisions_succeeds:
  "list_all (\<lambda>p. list_or_absent (u_logical_fallacies_found (snd p))) outs \<Longrightarrow>
     \<exists>ds. branch_decisions env s outs = Inr ds"
proof (induction outs)
  case Nil
  then show ?case by simp
next
  case (Cons out outs)
  then obtain ds where "branch_decisions env s outs = Inr ds" by auto
  moreover from Cons.prems obtain v where "apply_update env (snd out) s = Inr v"
    using apply_update_succeeds[of "snd out" env s] by auto
  ultimately show ?case by simp
qed

lemma apply_all_succeeds:
  "list_all (\<lambda>u. list_or_absent (u_logical_fallacies_found u)) us \<Longrightarrow>
     \<exists>s'. apply_all env us s = Inr s'"
proof (induction us arbitrary: s)
  case Nil
  then show ?case by simp
next
  case (Cons u us)
  then obtain s1 where "apply_update env u s = Inr s1"
    using apply_update_succeeds[of u env s] by auto
  with Cons.IH[of s1] Cons.prems show ?case by simp
qed

lemma superstep_succeeds: "well_behaved env \<Longrightarrow> \<exists>st'. superstep env st = Inr st'"
proof -
  assume w: "well_behaved env"
  let ?tasks = "filter (\<lambda>n. n \<in> set (next_nodes st)) nodes"
  from run_tasks_succeeds[OF w, of "session st" ?tasks] obtain outs where
    r: "run_tasks env (session st) ?tasks = Inr outs" and
    l: "list_all (\<lambda>p. list_or_absent (u_logical_fallacies_found (snd p))) outs"
    by blast
  from branch_decisions_succeeds[OF l] obtain ds where
    "branch_decisions env (session st) outs = Inr ds" by blast
  moreover from l have "list_all (\<lambda>u. list_or_absent (u_logical_fallacies_found u)) (map snd outs)"
    by (simp add: list_all_iff)
  from apply_all_succeeds[OF this] obtain s' where
    "apply_all env (map snd outs) (session st) = Inr s'" by blast
  ultimately show ?thesis using r by (simp add: superstep_def Let_def)
qed

lemma steps_succeeds: "well_behaved env \<Longrightarrow> \<exists>st'. steps k env st = Inr st'"
proof (induction k arbitrary: st)
  case 0
  then show ?case by simp
next
  case (Suc k)
  from superstep_succeeds[OF Suc.prems] obtain st1 where "superstep env st = Inr st1" by blast
  with Suc.IH[OF Suc.prems, of st1] show ?case by simp
qed

lemma well_behaved_demo: "well_behaved demo_env"
  unfolding well_behaved_def
proof (intro allI)
  fix n s
  show "succeeds (node_fn demo_env n s)"
    by (cases n)
       (simp_all add: demo_env_def intake_node_def fallacy_detector_node_def
          devil_advocate_node_def socratic_questioner_node_def argument_scorer_node_def
          increment_round_node_def final_coach_node_def no_update_def Let_def)
qed

lemma well_behaved_mute: "well_behaved mute_env"
  unfolding well_behaved_def
proof (intro allI)
  fix n s
  show "succeeds (node_fn mute_env n s)"
    by (cases n)
       (simp_all add: mute_env_def demo_env_def intake_node_def fallacy_detector_node_def
          devil_advocate_node_def socratic_questioner_node_def argument_scorer_node_def
          increment_round_node_def final_coach_node_def no_update_def Let_def)
qed

lemma well_behaved_extreme: "well_behaved extreme_env"
  unfolding well_behaved_def
proof (intro allI)
  fix n s
  show "succeeds (node_fn extreme_env n s)"
    by (cases n)
       (simp_all add: extreme_env_def demo_env_def intake_node_def fallacy_detector_node_def
          devil_advocate_node_def socratic_questioner_node_def argument_scorer_node_def
          increment_round_node_def final_coach_node_def no_update_def Let_def
          extreme_report_def ascii_def)
qed

section \<open>The fallacies found only grow\<close>

lemma apply_update_grows:
  "apply_update env u s = Inr s' \<Longrightarrow>
     \<exists>ys. logical_fallacies_found s' = logical_fallacies_found s @ ys"
  by (cases "u_logical_fallacies_found u" rule: list_or_absent.cases)
     (auto simp: apply_update_def state_append_def)

lemma apply_all_grows:
  "apply_all env us s = Inr s' \<Longrightarrow>
     \<exists>ys. logical_fallacies_found s' = logical_fallacies_found s @ ys"
proof (induction us arbitrary: s)
  case Nil
  then show ?case by simp
next
  case (Cons u us)
  then obtain s1 where a: "apply_update env u s = Inr s1" and r: "apply_all env us s1 = Inr s'"
    by (auto split: sum.splits)
  from apply_update_grows[OF a] Cons.IH[OF r] show ?case by auto
qed

lemma superstep_grows:
  assumes "superstep env st = Inr st'"
  shows "\<exists>ys. logical_fallacies_found (session st') = logical_fallacies_found (session st) @ ys"
proof (rule superstep_Inr[OF assms])
  fix outs :: "(node_id \<times> update) list"
  assume "apply_all env (map snd outs) (session st) = Inr (session st')"
  then show ?thesis by (rule apply_all_grows)
qed

lemma steps_grows:
  "steps k env st = Inr st' \<Longrightarrow>
     \<exists>ys. logical_fallacies_found (session st') = logical_fallacies_found (session st) @ ys"
proof (induction k arbitrary: st)
  case 0
  then show ?case by simp
next
  case (Suc k)
  show ?case
  proof (cases "next_nodes st = []")
    case True
    with Suc.prems show ?thesis by simp
  next
    case False
    with Suc.prems obtain st1 where s: "superstep env st = Inr st1" and r: "steps k env st1 = Inr st'"
      by (auto split: sum.splits)
    from superstep_grows[OF s] Suc.IH[OF r] show ?thesis by auto
  qed
qed

lemma steps_add:
  "steps (j + k) env st =
     (case steps j env st of Inl e \<Rightarrow> Inl e | Inr st1 \<Rightarrow> steps k env st1)"
proof (induction j arbitrary: st)
  case 0
  then show ?case by simp
next
  case (Suc j)
  show ?case
  proof (cases "next_nodes st = []")
    case True
    then show ?thesis by (simp add: steps_finished)
  next
    case False
    with Suc show ?thesis by (simp split: sum.splits)
  qed
qed

lemma position_first_detector:
  assumes "run_invariant env st" and "remaining st = 9"
  shows "next_nodes st = [fallacy_detector]"
  using assms
  by (auto simp: run_invariant_def before_intake_def in_round_def between_rounds_def
        finalizing_def finished_def remaining_def MAX_ROUNDS_def
        split: if_splits dest: three_cases)

section \<open>The message reducer, the fold of a group, the tips\<close>

lemma upsert_ids: "mid ` set (upsert m xs) = insert (mid m) (mid ` set xs)"
  by (induction xs) auto

lemma upsert_without_id: "mid m = None \<Longrightarrow> upsert m xs = xs @ [m]"
  by (induction xs) auto

lemma upsert_new: "mid m \<notin> mid ` set xs \<Longrightarrow> upsert m xs = xs @ [m]"
  by (induction xs) auto

lemma upsert_absorb:
  "mid m = mid m' \<Longrightarrow> mid m \<noteq> None \<Longrightarrow> upsert m (upsert m' xs) = upsert m xs"
  by (induction xs) (auto simp: upsert_ids)

lemma upsert_commute:
  "mid a \<noteq> mid b \<Longrightarrow> mid a \<noteq> None \<Longrightarrow> mid a \<in> mid ` set xs \<Longrightarrow>
     upsert b (upsert a xs) = upsert a (upsert b xs)"
  by (induction xs) (auto simp: upsert_ids)

lemma add_messages_ids:
  "mid ` set (add_messages xs us) = mid ` set xs \<union> mid ` set us"
  unfolding add_messages_def
  by (induction us arbitrary: xs) (auto simp: upsert_ids)

lemma add_messages_Cons: "add_messages xs (u # us) = add_messages (upsert u xs) us"
  by (simp add: add_messages_def)

lemma add_messages_snoc: "add_messages xs (us @ [u]) = upsert u (add_messages xs us)"
  by (simp add: add_messages_def)

lemma upsert_through:
  "mid m \<noteq> None \<Longrightarrow> None \<notin> mid ` set vs \<Longrightarrow> mid ` set vs \<subseteq> mid ` set ts \<Longrightarrow>
     upsert m (add_messages (upsert m ts) vs) = upsert m (add_messages ts vs)"
proof (induction vs arbitrary: ts)
  case Nil
  then show ?case by (simp add: add_messages_def upsert_absorb)
next
  case (Cons v vs)
  from Cons.prems have vn: "mid v \<noteq> None" by auto
  show ?case
  proof (cases "mid v = mid m")
    case True
    with vn show ?thesis by (simp add: add_messages_Cons upsert_absorb)
  next
    case False
    from Cons.prems have v: "mid v \<in> mid ` set ts" by simp
    from False v vn have sw: "upsert v (upsert m ts) = upsert m (upsert v ts)"
      by (simp add: upsert_commute[of v m ts])
    from Cons.prems have "mid ` set vs \<subseteq> mid ` set (upsert v ts)" "None \<notin> mid ` set vs"
      by (auto simp: upsert_ids)
    from Cons.IH[OF Cons.prems(1) this(2) this(1)] sw show ?thesis
      by (simp add: add_messages_Cons)
  qed
qed

lemma add_messages_twice:
  "None \<notin> mid ` set u \<Longrightarrow> add_messages (add_messages s u) u = add_messages s u"
proof (induction u arbitrary: s rule: rev_induct)
  case Nil
  then show ?case by (simp add: add_messages_def)
next
  case (snoc m vs)
  let ?t = "add_messages s vs"
  from snoc.prems have mn: "mid m \<noteq> None" and vn: "None \<notin> mid ` set vs" by auto
  have sub: "mid ` set vs \<subseteq> mid ` set ?t"
    by (simp add: add_messages_ids)
  have "add_messages (add_messages s (vs @ [m])) (vs @ [m]) =
          upsert m (add_messages (upsert m ?t) vs)"
    by (simp add: add_messages_snoc)
  also have "\<dots> = upsert m (add_messages ?t vs)"
    by (rule upsert_through[OF mn vn sub])
  also have "\<dots> = upsert m ?t"
    using snoc.IH[OF vn] by simp
  finally show ?case by (simp add: add_messages_snoc)
qed

lemma upsert_present:
  "mid m \<noteq> None \<Longrightarrow> mid m \<in> mid ` set xs \<Longrightarrow>
     map mid (upsert m xs) = map mid xs \<and> m \<in> set (upsert m xs) \<and>
     length (upsert m xs) = length xs"
  by (induction xs) auto

lemma add_messages_without_id: "mid ` set u \<subseteq> {None} \<Longrightarrow> add_messages s u = s @ u"
  unfolding add_messages_def
  by (induction u arbitrary: s) (auto simp: upsert_without_id)

lemma map_of_perm:
  assumes "distinct (map fst outs)" and "mset outs' = mset outs"
  shows "map_of outs' = map_of outs"
proof -
  from assms(2) have "mset (map fst outs') = mset (map fst outs)"
    by (metis mset_map)
  with assms(1) have "distinct (map fst outs')"
    by (metis mset_eq_imp_distinct_iff)
  moreover from assms(2) have "set outs' = set outs"
    by (rule mset_eq_setD)
  ultimately show ?thesis using assms(1)
    by (simp add: map_of_inject_set)
qed

lemma group_updates:
  assumes "map_of outs = map_of [(devil_advocate, a), (socratic_questioner, b), (argument_scorer, c)]"
  shows "concat (map (\<lambda>n. case map_of outs n of None \<Rightarrow> [] | Some u \<Rightarrow> [u]) order) =
           map (member_update a b c) (group_order order)"
  by (induction order) (auto simp: assms group_order_def member_update_def fan_out_def)

lemma foldl_last_value_None: "\<forall>x\<in>set xs. x = None \<Longrightarrow> foldl last_value v xs = v"
  by (induction xs arbitrary: v) auto

lemma foldl_appended_None: "\<forall>x\<in>set xs. x = None \<Longrightarrow> foldl appended v xs = v"
  by (induction xs arbitrary: v) auto

lemma foldl_appended_absent:
  "d \<notin> set ns \<Longrightarrow> foldl appended v (map (\<lambda>n. if n = d then Some x else None) ns) = v"
  by (induction ns arbitrary: v) auto

lemma foldl_appended_once:
  "distinct ns \<Longrightarrow> d \<in> set ns \<Longrightarrow>
     foldl appended v (map (\<lambda>n. if n = d then Some x else None) ns) = v @ x"
  by (induction ns arbitrary: v) (auto simp: foldl_appended_absent state_append_def)

lemma foldl_merged:
  "\<forall>n\<in>set ns. u_dialogue_history (f n) \<noteq> None \<Longrightarrow>
     foldl (merged env) h (map (\<lambda>n. u_dialogue_history (f n)) ns) =
     foldl (\<lambda>h n. merge_messages env h (messages_of (f n))) h ns"
  by (induction ns arbitrary: h) (auto simp: messages_of_def)

lemma apply_all_fields:
  assumes "\<forall>u\<in>set us. u_logical_fallacies_found u = None"
  shows "\<exists>s'. apply_all env us s = Inr s' \<and>
           topic s' = foldl last_value (topic s) (map u_topic us) \<and>
           user_position s' = foldl last_value (user_position s) (map u_user_position us) \<and>
           round_number s' = foldl last_value (round_number s) (map u_round_number us) \<and>
           verdict s' = foldl last_value (verdict s) (map u_verdict us) \<and>
           logical_fallacies_found s' = logical_fallacies_found s \<and>
           coaching_tips s' = foldl appended (coaching_tips s) (map u_coaching_tips us) \<and>
           argument_scores s' = foldl appended (argument_scores s) (map u_argument_scores us) \<and>
           devil_advocate_args s' =
             foldl appended (devil_advocate_args s) (map u_devil_advocate_args us) \<and>
           socratic_questions s' =
             foldl appended (socratic_questions s) (map u_socratic_questions us) \<and>
           dialogue_history s' =
             foldl (merged env) (dialogue_history s) (map u_dialogue_history us)"
  using assms
proof (induction us arbitrary: s)
  case Nil
  then show ?case by simp
next
  case (Cons u us)
  from Cons.prems have n: "u_logical_fallacies_found u = None" by simp
  from apply_update_total[OF n] obtain s1 where s1: "apply_update env u s = Inr s1" by blast
  from Cons.prems have "\<forall>u\<in>set us. u_logical_fallacies_found u = None" by simp
  from Cons.IH[OF this, of s1] obtain s' where
    s': "apply_all env us s1 = Inr s'"
      "topic s' = foldl last_value (topic s1) (map u_topic us)"
      "user_position s' = foldl last_value (user_position s1) (map u_user_position us)"
      "round_number s' = foldl last_value (round_number s1) (map u_round_number us)"
      "verdict s' = foldl last_value (verdict s1) (map u_verdict us)"
      "logical_fallacies_found s' = logical_fallacies_found s1"
      "coaching_tips s' = foldl appended (coaching_tips s1) (map u_coaching_tips us)"
      "argument_scores s' = foldl appended (argument_scores s1) (map u_argument_scores us)"
      "devil_advocate_args s' =
         foldl appended (devil_advocate_args s1) (map u_devil_advocate_args us)"
      "socratic_questions s' =
         foldl appended (socratic_questions s1) (map u_socratic_questions us)"
      "dialogue_history s' =
         foldl (merged env) (dialogue_history s1) (map u_dialogue_history us)"
    by blast
  from apply_update_fields(9)[OF s1] n
  have f: "logical_fallacies_found s1 = logical_fallacies_found s" by simp
  from s1 s'(1) have "apply_all env (u # us) s = Inr s'" by simp
  with s' f apply_update_fields[OF s1] show ?case by simp
qed

lemma devil_advocate_writes:
  assumes "devil_advocate_node env sa = Inr a"
  shows "u_topic a = None" "u_user_position a = None" "u_round_number a = None"
    "u_verdict a = None" "u_logical_fallacies_found a = None" "u_coaching_tips a = None"
    "u_argument_scores a = None" "u_socratic_questions a = None"
    "u_devil_advocate_args a \<noteq> None" "u_dialogue_history a \<noteq> None"
  using assms
  by (auto simp: devil_advocate_node_def no_update_def split: option.splits)

lemma socratic_questioner_writes:
  assumes "socratic_questioner_node env sb = Inr b"
  shows "u_topic b = None" "u_user_position b = None" "u_round_number b = None"
    "u_verdict b = None" "u_logical_fallacies_found b = None" "u_coaching_tips b = None"
    "u_argument_scores b = None" "u_devil_advocate_args b = None"
    "u_socratic_questions b \<noteq> None" "u_dialogue_history b \<noteq> None"
  using assms
  by (auto simp: socratic_questioner_node_def no_update_def Let_def split: option.splits)

lemma argument_scorer_writes:
  assumes "argument_scorer_node env sc = Inr c"
  shows "u_topic c = None" "u_user_position c = None" "u_round_number c = None"
    "u_verdict c = None" "u_logical_fallacies_found c = None" "u_coaching_tips c = None"
    "u_devil_advocate_args c = None" "u_socratic_questions c = None"
    "u_argument_scores c \<noteq> None" "u_dialogue_history c \<noteq> None"
  using assms
  by (auto simp: argument_scorer_node_def no_update_def Let_def split: option.splits json.splits)

lemma not_conflicting: "\<forall>u\<in>set us. unreduced_writes u = [] \<Longrightarrow> \<not> conflicting us"
  by (induction us) (auto simp: conflicting_def)

lemma group_order_members:
  assumes "distinct order" and "set fan_out \<subseteq> set order"
  shows "distinct (group_order order)" and "set (group_order order) = set fan_out"
  using assms by (auto simp: group_order_def)

lemma extract_tips_prefixed: "list_all (\<lambda>tip. startswith_any tip tip_prefixes) (extract_tips r)"
  by (simp add: extract_tips_def list_all_iff)

lemma tips_demo: "extract_tips (ascii ''Tip: cite evidence'') = [ascii ''Tip: cite evidence'']"
  by (simp add: extract_tips_def ascii_def strip_def isspace_def startswith_any_def startswith_def tip_prefixes_def)

lemma fan_out_decisions:
  assumes "run_tasks env s fan_out = Inr outs"
  shows "branch_decisions env s outs =
           Inr [(devil_advocate, should_continue s), (socratic_questioner, should_continue s),
                (argument_scorer, should_continue s)]"
proof -
  from run_tasks_Inr[OF assms]
  have fsts: "map fst outs = [devil_advocate, socratic_questioner, argument_scorer]"
    and fns: "list_all (\<lambda>p. node_fn env (fst p) s = Inr (snd p)) outs"
    by (simp_all add: fan_out_def)
  have quiet: "list_all (\<lambda>p. u_round_number (snd p) = None \<and>
                  list_or_absent (u_logical_fallacies_found (snd p))) outs"
    unfolding list_all_iff
  proof
    fix p assume p: "p \<in> set outs"
    with fns have n: "node_fn env (fst p) s = Inr (snd p)"
      by (simp add: list_all_iff)
    from p have "fst p \<in> set (map fst outs)" by simp
    with fsts have "fst p \<in> {devil_advocate, socratic_questioner, argument_scorer}" by simp
    with node_fn_round_number[OF n] node_fn_fallacies[OF n]
    show "u_round_number (snd p) = None \<and> list_or_absent (u_logical_fallacies_found (snd p))"
      by auto
  qed
  then have "list_all (\<lambda>p. list_or_absent (u_logical_fallacies_found (snd p))) outs"
    by (simp add: list_all_iff)
  from branch_decisions_succeeds[OF this] obtain ds where
    d: "branch_decisions env s outs = Inr ds" by blast
  from quiet have "list_all (\<lambda>p. u_round_number (snd p) = None) outs"
    by (simp add: list_all_iff)
  from branch_decisions_agree[OF d this] fsts d show ?thesis
    by (simp add: conditional_edges_def)
qed

lemma position_first_fan_out:
  assumes "run_invariant env st" and "remaining st = 8"
  shows "next_nodes st = fan_out" and "round_number (session st) = 1"
  using assms
  by (auto simp: run_invariant_def before_intake_def in_round_def between_rounds_def
        finalizing_def finished_def remaining_def MAX_ROUNDS_def fan_out_def
        split: if_splits dest: three_cases)

section \<open>The claims\<close>

text \<open>
  Claim C1. For every round of every run, after the fan-out group has completed and its
  updates are folded into the session, \<open>should_continue\<close> is evaluated and acted upon
  exactly once, against the merged session, so that \<open>increment_round\<close> and
  \<open>final_coach\<close> are each scheduled at most once per round.

  \<open>build_debate_graph\<close> attaches \<open>should_continue\<close> to each of the three members of
  the group, where its comments and the module's diagram speak of one check after the
  fan-in. The theorem is what the graph as built does: in the step of the fan-out group,
  \<open>should_continue\<close> is evaluated three times, once for each member and on that
  member's view of the state; the three labels are the label of the state the members
  read, which is also the label of the merged session, and the one node that label names
  is scheduled next.
\<close>

theorem should_continue_evaluated_per_member:
  assumes "next_nodes st = fan_out" and "superstep env st = Inr st'"
  shows "\<exists>outs. run_tasks env (session st) fan_out = Inr outs \<and>
           branch_decisions env (session st) outs =
             Inr [(devil_advocate, should_continue (session st)),
                  (socratic_questioner, should_continue (session st)),
                  (argument_scorer, should_continue (session st))] \<and>
           should_continue (session st') = should_continue (session st) \<and>
           next_nodes st' = [path_map (should_continue (session st'))]"
proof -
  from assms(1) have n: "next_nodes st = [devil_advocate, socratic_questioner, argument_scorer]"
    by (simp add: fan_out_def)
  from assms(2) obtain outs where
    "run_tasks env (session st) (filter (\<lambda>n. n \<in> set (next_nodes st)) nodes) = Inr outs"
    by (rule superstep_Inr)
  then have r: "run_tasks env (session st) fan_out = Inr outs"
    unfolding tasks_fanout[OF n] by (simp add: fan_out_def)
  from fanout_step(1)[OF n assms(2)]
  have same: "should_continue (session st') = should_continue (session st)"
    by (simp add: should_continue_def)
  from fan_out_decisions[OF r] r same fanout_step(5)[OF n assms(2)]
  show ?thesis by simp
qed

theorem should_continue_evaluated_per_member_witness:
  "\<exists>st st' outs. steps 2 demo_env (start [] []) = Inr st \<and> next_nodes st = fan_out \<and>
     superstep demo_env st = Inr st' \<and>
     run_tasks demo_env (session st) fan_out = Inr outs \<and>
     branch_decisions demo_env (session st) outs =
       Inr [(devil_advocate, continue), (socratic_questioner, continue),
            (argument_scorer, continue)] \<and>
     next_nodes st' = [increment_round]"
proof -
  from steps_succeeds[OF well_behaved_demo] obtain st where
    s: "steps 2 demo_env (start [] []) = Inr st" by blast
  from reach[OF s] have p: "next_nodes st = fan_out" "round_number (session st) = 1"
    by (simp_all add: position_first_fan_out)
  from superstep_succeeds[OF well_behaved_demo] obtain st' where
    s': "superstep demo_env st = Inr st'" by blast
  from p(2) have c: "should_continue (session st) = continue"
    by (simp add: should_continue_def MAX_ROUNDS_def)
  from should_continue_evaluated_per_member[OF p(1) s'] c s s' p(1) show ?thesis
    by auto
qed

text \<open>
  Claim C2. In every run, \<open>round_number\<close> starts at 0, is set to 1 by the intake node
  before any analysis node reads it, is incremented by exactly 1 on each loop iteration by
  \<open>increment_round\<close>, never decreases, and never exceeds the maximal number of rounds,
  which is 3, before the finalize branch is taken.

  For every state \<open>st\<close> that a run reaches after any number of steps: the round number
  was 0 at the start; it lies between 0 and \<open>MAX_ROUNDS = 3\<close>; it is at least 1 as soon
  as any node other than intake is scheduled; and a step from \<open>st\<close> sets it to 1 when
  the step is the intake, adds exactly 1 when the step is \<open>increment_round\<close>, leaves it
  as it is otherwise, and so never decreases it.
\<close>

theorem round_number_discipline:
  assumes "steps k env (start t p) = Inr st"
  shows "round_number (session (start t p)) = 0 \<and>
         0 \<le> round_number (session st) \<and> round_number (session st) \<le> MAX_ROUNDS \<and>
         MAX_ROUNDS = 3 \<and>
         (next_nodes st \<noteq> [intake] \<longrightarrow> 1 \<le> round_number (session st)) \<and>
         (\<forall>st'. superstep env st = Inr st' \<longrightarrow> next_nodes st \<noteq> [] \<longrightarrow>
            (next_nodes st = [intake] \<longrightarrow> round_number (session st') = 1) \<and>
            (next_nodes st = [increment_round] \<longrightarrow>
               round_number (session st') = round_number (session st) + 1) \<and>
            (next_nodes st \<noteq> [intake] \<longrightarrow> next_nodes st \<noteq> [increment_round] \<longrightarrow>
               round_number (session st') = round_number (session st)) \<and>
            round_number (session st) \<le> round_number (session st'))"
proof -
  note inv = reach(1)[OF assms]
  have "round_number (session (start t p)) = 0"
    by (simp add: start_def initial_state_def)
  moreover have "MAX_ROUNDS = 3" by (simp add: MAX_ROUNDS_def)
  moreover note invariant_bounds[OF inv]
  moreover have "\<forall>st'. superstep env st = Inr st' \<longrightarrow> next_nodes st \<noteq> [] \<longrightarrow>
            (next_nodes st = [intake] \<longrightarrow> round_number (session st') = 1) \<and>
            (next_nodes st = [increment_round] \<longrightarrow>
               round_number (session st') = round_number (session st) + 1) \<and>
            (next_nodes st \<noteq> [intake] \<longrightarrow> next_nodes st \<noteq> [increment_round] \<longrightarrow>
               round_number (session st') = round_number (session st)) \<and>
            round_number (session st) \<le> round_number (session st')"
    using invariant_round_step[OF inv] by blast
  ultimately show ?thesis by blast
qed

theorem round_number_discipline_witness:
  "\<exists>st st'. steps 6 demo_env (start [] []) = Inr st \<and> superstep demo_env st = Inr st' \<and>
     next_nodes st = [increment_round] \<and>
     round_number (session st) = 2 \<and> round_number (session st') = 3"
proof -
  from steps_succeeds[OF well_behaved_demo] obtain st where
    s: "steps 6 demo_env (start [] []) = Inr st" by blast
  from superstep_succeeds[OF well_behaved_demo] obtain st' where
    s': "superstep demo_env st = Inr st'" by blast
  from reach[OF s] have p: "next_nodes st = [increment_round]" "round_number (session st) = 2"
    by (simp_all add: position_6)
  from round_number_discipline[OF s] s' p have "round_number (session st') = 3"
    by auto
  with s s' p show ?thesis by blast
qed

text \<open>
  Claim C3. With three rounds at most, when the conditional edge function is evaluated
  after the fan-out of round 3 (\<open>round_number = 3\<close>), it selects the finalize branch;
  \<open>increment_round\<close> does not run again, and the final session has
  \<open>round_number = 3\<close>, not 4.

  On a session in round 3 \<open>should_continue\<close> answers \<open>finalize\<close>, which the path map
  sends to \<open>final_coach\<close>. In every run: a state in round 3 never has
  \<open>increment_round\<close> scheduled; the step of the fan-out group in round 3 schedules
  \<open>final_coach\<close> alone and leaves the round number at 3; a run that is over has round
  number 3 and has run \<open>increment_round\<close> twice; every run is over after ten steps. And
  when every node call succeeds, the session does run to its end, with round number 3.
\<close>

theorem final_round_finalizes:
  "MAX_ROUNDS = 3 \<and>
   (round_number s = 3 \<longrightarrow>
      should_continue s = finalize \<and> path_map (should_continue s) = final_coach) \<and>
   (\<forall>k st. steps k env (start t p) = Inr st \<longrightarrow>
      (round_number (session st) = 3 \<longrightarrow> increment_round \<notin> set (next_nodes st)) \<and>
      (\<forall>st'. next_nodes st = fan_out \<longrightarrow> round_number (session st) = 3 \<longrightarrow>
             superstep env st = Inr st' \<longrightarrow>
             next_nodes st' = [final_coach] \<and> round_number (session st') = 3) \<and>
      (next_nodes st = [] \<longrightarrow>
         round_number (session st) = 3 \<and> count_list (ran st) increment_round = 2) \<and>
      (10 \<le> k \<longrightarrow> next_nodes st = [])) \<and>
   (well_behaved env \<longrightarrow>
      (\<exists>st. run_session env t p = Inr st \<and> next_nodes st = [] \<and>
            round_number (session st) = 3 \<and> count_list (ran st) increment_round = 2))"
proof (intro conjI allI impI)
  show "MAX_ROUNDS = 3" by (simp add: MAX_ROUNDS_def)
  show "should_continue s = finalize" if "round_number s = 3"
    using that by (simp add: should_continue_def MAX_ROUNDS_def)
  show "path_map (should_continue s) = final_coach" if "round_number s = 3"
    using that by (simp add: should_continue_def MAX_ROUNDS_def)
next
  fix k st assume s: "steps k env (start t p) = Inr st"
  note inv = reach(1)[OF s]
  show "increment_round \<notin> set (next_nodes st)" if "round_number (session st) = 3"
    using invariant_increment_scheduled[OF inv] that by (auto simp: MAX_ROUNDS_def)
  {
    fix st' assume f: "next_nodes st = fan_out" and r: "round_number (session st) = 3"
      and x: "superstep env st = Inr st'"
    from f have f': "next_nodes st = [devil_advocate, socratic_questioner, argument_scorer]"
      by (simp add: fan_out_def)
    from fanout_step(5)[OF f' x] r show "next_nodes st' = [final_coach]"
      by (simp add: should_continue_def MAX_ROUNDS_def)
    from fanout_step(1)[OF f' x] r show "round_number (session st') = 3" by simp
  }
  {
    assume e: "next_nodes st = []"
    from invariant_finished[OF inv e]
    show "round_number (session st) = 3" and "count_list (ran st) increment_round = 2"
      by (simp_all add: finished_def MAX_ROUNDS_def)
  }
  show "next_nodes st = []" if "10 \<le> k"
    using reach(2)[OF s] that remaining_0[OF inv] by simp
next
  assume w: "well_behaved env"
  from steps_succeeds[OF w] obtain st where s: "steps 10 env (start t p) = Inr st" by blast
  from reach[OF s] have e: "next_nodes st = []" by (simp add: remaining_0)
  from invariant_finished[OF reach(1)[OF s] e] s e
  show "\<exists>st. run_session env t p = Inr st \<and> next_nodes st = [] \<and>
            round_number (session st) = 3 \<and> count_list (ran st) increment_round = 2"
    by (auto simp: run_session_def finished_def MAX_ROUNDS_def)
qed

theorem final_round_finalizes_witness:
  "\<exists>st st' fin. steps 8 demo_env (start [] []) = Inr st \<and> next_nodes st = fan_out \<and>
      round_number (session st) = 3 \<and> should_continue (session st) = finalize \<and>
      superstep demo_env st = Inr st' \<and> next_nodes st' = [final_coach] \<and>
      run_session demo_env [] [] = Inr fin \<and> next_nodes fin = [] \<and>
      round_number (session fin) = 3 \<and> count_list (ran fin) increment_round = 2"
proof -
  note c = final_round_finalizes[of _ demo_env "[]" "[]"]
  from steps_succeeds[OF well_behaved_demo] obtain st where
    s: "steps 8 demo_env (start [] []) = Inr st" by blast
  from superstep_succeeds[OF well_behaved_demo] obtain st' where
    s': "superstep demo_env st = Inr st'" by blast
  from reach[OF s] have p: "next_nodes st = fan_out" "round_number (session st) = 3"
    by (simp_all add: position_last_fan_out)
  from c[of "session st"] p have d: "should_continue (session st) = finalize" by simp
  from c s s' p have n: "next_nodes st' = [final_coach]" by blast
  from c well_behaved_demo obtain fin where
    "run_session demo_env [] [] = Inr fin \<and> next_nodes fin = [] \<and>
      round_number (session fin) = 3 \<and> count_list (ran fin) increment_round = 2"
    by blast
  with s s' p d n show ?thesis by blast
qed

text \<open>
  Claim C4. Applying a partial update fails with a MalformedUpdateError, leaving the
  session unchanged and aborting the run, whenever the update refers to a field that the
  state does not declare or contains a sequence element that fails shape validation, for
  example a fallacy report whose severity is outside high, medium, low.

  The claim fails: the fallacy detector passes on a report of severity \<open>extreme\<close> as it
  came; applying that update succeeds and appends the report to the session; and the run
  goes on to its end, where the session holds the report.
\<close>

theorem extreme_severity_is_appended:
  "\<not> severity_allowed extreme_report \<and>
   map_sum id u_logical_fallacies_found
     (fallacy_detector_node extreme_env (initial_state [] [])) =
     Inr (Some (JList [extreme_report])) \<and>
   map_sum id logical_fallacies_found
     (apply_update extreme_env extreme_update (initial_state [] [])) = Inr [extreme_report] \<and>
   map_sum id next_nodes (run_session extreme_env [] []) = Inr [] \<and>
   map_sum id (\<lambda>st. extreme_report \<in> set (logical_fallacies_found (session st)))
     (run_session extreme_env [] []) = Inr True"
proof -
  have a: "\<not> severity_allowed extreme_report"
    by (simp add: severity_allowed_def extreme_report_def ascii_def)
  have fd: "fallacy_detector_node extreme_env s =
      Inr (no_update\<lparr>u_logical_fallacies_found := Some (JList [extreme_report]),
            u_dialogue_history := Some [ai (ascii ''[Fallacy Analysis] '' @ ascii ''[]'')]\<rparr>)" for s
    by (simp add: fallacy_detector_node_def extreme_env_def demo_env_def extreme_report_def
          ascii_def)
  have b: "map_sum id u_logical_fallacies_found
     (fallacy_detector_node extreme_env (initial_state [] [])) =
     Inr (Some (JList [extreme_report]))"
    by (simp add: fd no_update_def)
  have c: "map_sum id logical_fallacies_found
     (apply_update extreme_env extreme_update (initial_state [] [])) = Inr [extreme_report]"
    by (simp add: extreme_update_def apply_update_def no_update_def initial_state_def
          state_append_def)
  from steps_succeeds[OF well_behaved_extreme] obtain st1 where
    s1: "steps 1 extreme_env (start [] []) = Inr st1" by blast
  from reach[OF s1] have n1: "next_nodes st1 = [fallacy_detector]"
    by (simp add: position_first_detector)
  from superstep_succeeds[OF well_behaved_extreme] obtain st2 where
    s2: "superstep extreme_env st1 = Inr st2" by blast
  have "fallacy_detector \<notin> set conditional_edges" by (simp add: conditional_edges_def)
  from single_step[OF n1 this s2] obtain u where
    u: "node_fn extreme_env fallacy_detector (session st1) = Inr u" and
    ap: "apply_update extreme_env u (session st1) = Inr (session st2)"
    by blast
  from u have "u_logical_fallacies_found u = Some (JList [extreme_report])"
    by (auto simp: fd no_update_def)
  with apply_update_fields(9)[OF ap]
  have "logical_fallacies_found (session st2) =
          logical_fallacies_found (session st1) @ [extreme_report]"
    by (simp add: state_append_def)
  then have in2: "extreme_report \<in> set (logical_fallacies_found (session st2))"
    by simp
  from steps_succeeds[OF well_behaved_extreme] obtain fin where
    f: "steps 8 extreme_env st2 = Inr fin" by blast
  from n1 s2 f have "steps 9 extreme_env st1 = Inr fin"
    by (simp add: eval_nat_numeral)
  with s1 steps_add[of 1 9 extreme_env "start [] []"]
  have run: "run_session extreme_env [] [] = Inr fin"
    by (simp add: run_session_def)
  from steps_grows[OF f] in2 have d: "extreme_report \<in> set (logical_fallacies_found (session fin))"
    by auto
  from run have "steps 10 extreme_env (start [] []) = Inr fin"
    by (simp add: run_session_def)
  from reach[OF this] have e: "next_nodes fin = []" by (simp add: remaining_0)
  from a b c d e run show ?thesis by simp
qed

text \<open>
  Claim C4, amended. \<open>_append\<close> is list concatenation and validates nothing. For every
  update of declared fields: a list under \<open>logical_fallacies_found\<close> is appended as it
  is, whatever its elements; the other sequences are appended likewise; the application
  fails only when the value under \<open>logical_fallacies_found\<close> is not a list, with the
  TypeError of the concatenation.
\<close>

theorem apply_update_appends_unvalidated:
  "state_append existing new = existing @ new \<and>
   (\<forall>xs. u_logical_fallacies_found u = Some (JList xs) \<longrightarrow>
      (\<exists>s'. apply_update env u s = Inr s' \<and>
            logical_fallacies_found s' = logical_fallacies_found s @ xs)) \<and>
   (u_logical_fallacies_found u = None \<longrightarrow>
      (\<exists>s'. apply_update env u s = Inr s' \<and>
            logical_fallacies_found s' = logical_fallacies_found s)) \<and>
   (\<forall>e. apply_update env u s = Inl e \<longrightarrow>
      e = ReducerTypeError \<and>
      (\<exists>v. u_logical_fallacies_found u = Some v \<and> (\<forall>xs. v \<noteq> JList xs))) \<and>
   (\<forall>s'. apply_update env u s = Inr s' \<longrightarrow>
      argument_scores s' = appended (argument_scores s) (u_argument_scores u) \<and>
      devil_advocate_args s' = appended (devil_advocate_args s) (u_devil_advocate_args u) \<and>
      socratic_questions s' = appended (socratic_questions s) (u_socratic_questions u) \<and>
      coaching_tips s' = appended (coaching_tips s) (u_coaching_tips u))"
proof (intro conjI allI impI)
  show "state_append existing new = existing @ new"
    by (simp add: state_append_def)
next
  fix xs assume "u_logical_fallacies_found u = Some (JList xs)"
  then show "\<exists>s'. apply_update env u s = Inr s' \<and>
            logical_fallacies_found s' = logical_fallacies_found s @ xs"
    by (simp add: apply_update_def state_append_def)
next
  assume "u_logical_fallacies_found u = None"
  then show "\<exists>s'. apply_update env u s = Inr s' \<and>
            logical_fallacies_found s' = logical_fallacies_found s"
    by (simp add: apply_update_def)
next
  fix e assume e: "apply_update env u s = Inl e"
  then have "\<not> list_or_absent (u_logical_fallacies_found u)"
    using apply_update_succeeds[of u env s] by auto
  then have v: "\<exists>v. u_logical_fallacies_found u = Some v \<and> (\<forall>xs. v \<noteq> JList xs)"
    by (cases "u_logical_fallacies_found u" rule: list_or_absent.cases) auto
  from e v show "e = ReducerTypeError"
    by (cases "u_logical_fallacies_found u" rule: list_or_absent.cases)
       (auto simp: apply_update_def)
  from v show "\<exists>v. u_logical_fallacies_found u = Some v \<and> (\<forall>xs. v \<noteq> JList xs)" .
next
  fix s' assume a: "apply_update env u s = Inr s'"
  from apply_update_fields[OF a]
  show "argument_scores s' = appended (argument_scores s) (u_argument_scores u)"
    and "devil_advocate_args s' = appended (devil_advocate_args s) (u_devil_advocate_args u)"
    and "socratic_questions s' = appended (socratic_questions s) (u_socratic_questions u)"
    and "coaching_tips s' = appended (coaching_tips s) (u_coaching_tips u)"
    by simp_all
qed

theorem apply_update_appends_unvalidated_witness:
  "\<exists>s'. apply_update extreme_env extreme_update (initial_state [] []) = Inr s' \<and>
     logical_fallacies_found s' = [extreme_report]"
proof -
  have "u_logical_fallacies_found extreme_update = Some (JList [extreme_report])"
    by (simp add: extreme_update_def no_update_def)
  with apply_update_appends_unvalidated[of "[]" "[]" extreme_update extreme_env "initial_state [] []"]
  have "\<exists>s'. apply_update extreme_env extreme_update (initial_state [] []) = Inr s' \<and>
     logical_fallacies_found s' = logical_fallacies_found (initial_state [] []) @ [extreme_report]"
    by blast
  then show ?thesis by (simp add: initial_state_def)
qed

text \<open>
  Claim C6. For every session state and every fixed triple of outputs of
  \<open>devil_advocate\<close>, \<open>socratic_questioner\<close> and \<open>argument_scorer\<close>, the fan-in
  fold gives the same session whatever the order in which the three finish, because the
  three updates are folded in a fixed order (the order in which the nodes were declared,
  not the order of completion).

  This holds of the order of declaration and of every other fixed order. Take the updates
  that the three nodes return, each on whatever state it read, in any two orders of
  arrival, and a fixed order: a list without repetition in which the three nodes stand,
  such as the nodes in the order of their declaration or in the order of their names. The
  fold of the one arrival is the fold of the other, it succeeds, and the session it gives
  is this one: the history is merged with the messages of the three members in the fixed
  order; the counter-arguments, the questions and the scores each grow by what the one
  member that writes them returned; every other field is as it was. So the choice of the
  fixed order shows in the history alone.
\<close>

theorem fan_in_fold_order_independent:
  assumes a: "devil_advocate_node env sa = Inr a"
    and b: "socratic_questioner_node env sb = Inr b"
    and c: "argument_scorer_node env sc = Inr c"
    and arrival:
      "mset outs = mset [(devil_advocate, a), (socratic_questioner, b), (argument_scorer, c)]"
    and arrival': "mset outs' = mset outs"
    and order: "distinct order" "set fan_out \<subseteq> set order"
  shows "fold_group env order outs' s = fold_group env order outs s \<and>
         (\<exists>s'. fold_group env order outs s = Inr s' \<and>
           dialogue_history s' =
             foldl (\<lambda>h n. merge_messages env h (messages_of (member_update a b c n)))
               (dialogue_history s) (group_order order) \<and>
           devil_advocate_args s' = devil_advocate_args s @ the (u_devil_advocate_args a) \<and>
           socratic_questions s' = socratic_questions s @ the (u_socratic_questions b) \<and>
           argument_scores s' = argument_scores s @ the (u_argument_scores c) \<and>
           topic s' = topic s \<and> user_position s' = user_position s \<and>
           round_number s' = round_number s \<and>
           logical_fallacies_found s' = logical_fallacies_found s \<and>
           coaching_tips s' = coaching_tips s \<and> verdict s' = verdict s)"
proof -
  let ?d = "[(devil_advocate, a), (socratic_questioner, b), (argument_scorer, c)]"
  let ?g = "group_order order"
  let ?us = "map (member_update a b c) ?g"
  note da = devil_advocate_writes[OF a]
  note sq = socratic_questioner_writes[OF b]
  note sc = argument_scorer_writes[OF c]
  have "distinct (map fst ?d)" by simp
  from map_of_perm[OF this arrival] have m: "map_of outs = map_of ?d" .
  have us: "concat (map (\<lambda>n. case map_of outs n of None \<Rightarrow> [] | Some u \<Rightarrow> [u]) order) = ?us"
    by (rule group_updates[OF m])
  have quiet_writes: "\<forall>u\<in>set ?us. unreduced_writes u = []"
    using da(1-4) sq(1-4) sc(1-4) by (auto simp: member_update_def unreduced_writes_def)
  then have nc: "\<not> conflicting ?us" by (rule not_conflicting)
  from us nc have fg: "fold_group env order outs s = apply_all env ?us s"
    by (simp add: fold_group_def)
  have nf: "\<forall>u\<in>set ?us. u_logical_fallacies_found u = None"
    using da(5) sq(5) sc(5) by (auto simp: member_update_def)
  from apply_all_fields[OF nf, of env s] obtain s' where
    s': "apply_all env ?us s = Inr s'"
      "topic s' = foldl last_value (topic s) (map u_topic ?us)"
      "user_position s' = foldl last_value (user_position s) (map u_user_position ?us)"
      "round_number s' = foldl last_value (round_number s) (map u_round_number ?us)"
      "verdict s' = foldl last_value (verdict s) (map u_verdict ?us)"
      "logical_fallacies_found s' = logical_fallacies_found s"
      "coaching_tips s' = foldl appended (coaching_tips s) (map u_coaching_tips ?us)"
      "argument_scores s' = foldl appended (argument_scores s) (map u_argument_scores ?us)"
      "devil_advocate_args s' =
         foldl appended (devil_advocate_args s) (map u_devil_advocate_args ?us)"
      "socratic_questions s' =
         foldl appended (socratic_questions s) (map u_socratic_questions ?us)"
      "dialogue_history s' =
         foldl (merged env) (dialogue_history s) (map u_dialogue_history ?us)"
    by blast
  note g = group_order_members[OF order]
  have mem: "devil_advocate \<in> set ?g" "socratic_questioner \<in> set ?g" "argument_scorer \<in> set ?g"
    using g(2) by (simp_all add: fan_out_def)
  have t1: "topic s' = topic s"
    unfolding s'(2) using da(1) sq(1) sc(1)
    by (intro foldl_last_value_None) (auto simp: member_update_def)
  have t2: "user_position s' = user_position s"
    unfolding s'(3) using da(2) sq(2) sc(2)
    by (intro foldl_last_value_None) (auto simp: member_update_def)
  have t3: "round_number s' = round_number s"
    unfolding s'(4) using da(3) sq(3) sc(3)
    by (intro foldl_last_value_None) (auto simp: member_update_def)
  have t4: "verdict s' = verdict s"
    unfolding s'(5) using da(4) sq(4) sc(4)
    by (intro foldl_last_value_None) (auto simp: member_update_def)
  have t5: "coaching_tips s' = coaching_tips s"
    unfolding s'(7) using da(6) sq(6) sc(6)
    by (intro foldl_appended_None) (auto simp: member_update_def)
  from da(9) obtain x where x: "u_devil_advocate_args a = Some x" by blast
  from sq(9) obtain y where y: "u_socratic_questions b = Some y" by blast
  from sc(9) obtain z where z: "u_argument_scores c = Some z" by blast
  have "map u_devil_advocate_args ?us = map (\<lambda>n. if n = devil_advocate then Some x else None) ?g"
    using g(2) x sq(8) sc(7) by (auto simp: member_update_def fan_out_def)
  with s'(9) have "devil_advocate_args s' =
      foldl appended (devil_advocate_args s) (map (\<lambda>n. if n = devil_advocate then Some x else None) ?g)"
    by (simp only:)
  with foldl_appended_once[OF g(1) mem(1), of "devil_advocate_args s" x] x
  have t6: "devil_advocate_args s' = devil_advocate_args s @ the (u_devil_advocate_args a)"
    by simp
  have "map u_socratic_questions ?us = map (\<lambda>n. if n = socratic_questioner then Some y else None) ?g"
    using g(2) y da(8) sc(8) by (auto simp: member_update_def fan_out_def)
  with s'(10) have "socratic_questions s' =
      foldl appended (socratic_questions s) (map (\<lambda>n. if n = socratic_questioner then Some y else None) ?g)"
    by (simp only:)
  with foldl_appended_once[OF g(1) mem(2), of "socratic_questions s" y] y
  have t7: "socratic_questions s' = socratic_questions s @ the (u_socratic_questions b)"
    by simp
  have "map u_argument_scores ?us = map (\<lambda>n. if n = argument_scorer then Some z else None) ?g"
    using g(2) z da(7) sq(7) by (auto simp: member_update_def fan_out_def)
  with s'(8) have "argument_scores s' =
      foldl appended (argument_scores s) (map (\<lambda>n. if n = argument_scorer then Some z else None) ?g)"
    by (simp only:)
  with foldl_appended_once[OF g(1) mem(3), of "argument_scores s" z] z
  have t8: "argument_scores s' = argument_scores s @ the (u_argument_scores c)"
    by simp
  have "\<forall>n\<in>set ?g. u_dialogue_history (member_update a b c n) \<noteq> None"
    using da(10) sq(10) sc(10) by (auto simp: member_update_def)
  from foldl_merged[OF this, of env "dialogue_history s"] s'(11)
  have t9: "dialogue_history s' =
      foldl (\<lambda>h n. merge_messages env h (messages_of (member_update a b c n)))
        (dialogue_history s) ?g"
    by (simp add: comp_def)
  from arrival arrival' have "mset outs' = mset ?d" by simp
  from map_of_perm[OF \<open>distinct (map fst ?d)\<close> this] m
  have "fold_group env order outs' s = fold_group env order outs s"
    by (simp add: fold_group_def)
  with fg s'(1) s'(6) t1 t2 t3 t4 t5 t6 t7 t8 t9 show ?thesis by simp
qed

theorem fan_in_fold_order_independent_witness:
  "devil_advocate_node group_env (initial_state [] []) = Inr counter_update \<and>
   socratic_questioner_node group_env (initial_state [] []) = Inr questions_update \<and>
   argument_scorer_node group_env (initial_state [] []) = Inr score_update \<and>
   fold_group group_env name_order (rev demo_outs) (initial_state [] []) =
     fold_group group_env name_order demo_outs (initial_state [] []) \<and>
   (\<exists>s'. fold_group group_env name_order demo_outs (initial_state [] []) = Inr s' \<and>
      dialogue_history s' =
        messages_of score_update @ messages_of counter_update @ messages_of questions_update \<and>
      devil_advocate_args s' = [ascii ''Tip: cite evidence''] \<and>
      socratic_questions s' = [ascii ''- Why?''] \<and>
      argument_scores s' =
        [JObj [(ascii ''round'', JInt 0), (ascii ''total'', JInt 0),
               (ascii ''summary'', JStr (ascii ''Could not parse score.''))]] \<and>
      round_number s' = 0 \<and> verdict s' = []) \<and>
   (\<exists>s'. fold_group group_env nodes demo_outs (initial_state [] []) = Inr s' \<and>
      dialogue_history s' =
        messages_of counter_update @ messages_of questions_update @ messages_of score_update) \<and>
   (\<exists>s'. apply_all group_env (map snd demo_outs) (initial_state [] []) = Inr s' \<and>
      dialogue_history s' =
        messages_of score_update @ messages_of questions_update @ messages_of counter_update)"
proof -
  let ?s = "initial_state [] []"
  have a: "devil_advocate_node group_env ?s = Inr counter_update"
    by (simp add: devil_advocate_node_def group_env_def demo_env_def counter_update_def)
  have b: "socratic_questioner_node group_env ?s = Inr questions_update"
    by (simp add: socratic_questioner_node_def group_env_def demo_env_def questions_update_def
          question_line_def strip_def isspace_def startswith_def ascii_def)
  have c: "argument_scorer_node group_env ?s = Inr score_update"
    by (simp add: argument_scorer_node_def group_env_def demo_env_def score_update_def
          dict_merge_def initial_state_def ascii_def)
  have m: "mset demo_outs =
      mset [(devil_advocate, counter_update), (socratic_questioner, questions_update),
            (argument_scorer, score_update)]"
    by (simp add: demo_outs_def)
  have m': "mset (rev demo_outs) = mset demo_outs" by simp
  have o: "distinct name_order" "set fan_out \<subseteq> set name_order"
    by (simp_all add: name_order_def fan_out_def)
  have o': "distinct nodes" "set fan_out \<subseteq> set nodes"
    by (simp_all add: nodes_def fan_out_def)
  have g: "group_order name_order = [argument_scorer, devil_advocate, socratic_questioner]"
    by (simp add: group_order_def name_order_def fan_out_def)
  have g': "group_order nodes = [devil_advocate, socratic_questioner, argument_scorer]"
    by (simp add: group_order_def nodes_def fan_out_def)
  have e: "merge_messages group_env = (\<lambda>existing new. existing @ new)"
    by (simp add: group_env_def demo_env_def)
  have h: "dialogue_history ?s = []" "devil_advocate_args ?s = []" "socratic_questions ?s = []"
    "argument_scores ?s = []" "round_number ?s = 0" "verdict ?s = []"
    by (simp_all add: initial_state_def)
  have u: "the (u_devil_advocate_args counter_update) = [ascii ''Tip: cite evidence'']"
    "the (u_socratic_questions questions_update) = [ascii ''- Why?'']"
    "the (u_argument_scores score_update) =
       [JObj [(ascii ''round'', JInt 0), (ascii ''total'', JInt 0),
              (ascii ''summary'', JStr (ascii ''Could not parse score.''))]]"
    by (simp_all add: counter_update_def questions_update_def score_update_def)
  note t = fan_in_fold_order_independent[OF a b c m m' o, of ?s]
  from t have 1: "fold_group group_env name_order (rev demo_outs) ?s =
             fold_group group_env name_order demo_outs ?s"
    by simp
  from t have 2: "\<exists>s'. fold_group group_env name_order demo_outs ?s = Inr s' \<and>
      dialogue_history s' =
        messages_of score_update @ messages_of counter_update @ messages_of questions_update \<and>
      devil_advocate_args s' = [ascii ''Tip: cite evidence''] \<and>
      socratic_questions s' = [ascii ''- Why?''] \<and>
      argument_scores s' =
        [JObj [(ascii ''round'', JInt 0), (ascii ''total'', JInt 0),
               (ascii ''summary'', JStr (ascii ''Could not parse score.''))]] \<and>
      round_number s' = 0 \<and> verdict s' = []"
    by (auto simp: g e h u member_update_def)
  from fan_in_fold_order_independent[OF a b c m m' o', of ?s]
  have 3: "\<exists>s'. fold_group group_env nodes demo_outs ?s = Inr s' \<and>
      dialogue_history s' =
        messages_of counter_update @ messages_of questions_update @ messages_of score_update"
    by (auto simp: g' e h member_update_def)
  have nf: "\<forall>u\<in>set (map snd demo_outs). u_logical_fallacies_found u = None"
    by (simp add: demo_outs_def counter_update_def questions_update_def score_update_def
          no_update_def)
  from apply_all_fields[OF nf, of group_env ?s]
  have 4: "\<exists>s'. apply_all group_env (map snd demo_outs) ?s = Inr s' \<and>
      dialogue_history s' =
        messages_of score_update @ messages_of questions_update @ messages_of counter_update"
    by (auto simp: demo_outs_def counter_update_def questions_update_def score_update_def
          no_update_def messages_of_def e h)
  from a b c 1 2 3 4 show ?thesis by blast
qed

text \<open>
  Claim C7. For every session state and every \<open>dialogue_history\<close> update, applying the
  update twice through the reducer of \<open>dialogue_history\<close> gives the same as applying it
  once: an incoming message whose id matches a message that is already there replaces it
  in place and is not appended as a duplicate.

  This fails for a message that has no id, and the nodes of this program build every
  message without one: the update that \<open>intake_node\<close> returns on a state, applied
  once and, returned again by \<open>intake_node\<close> on that state, applied a second time,
  leaves the user's position twice in the history.
\<close>

theorem message_without_id_appended_twice:
  "\<exists>u s1 s2.
     intake_node dedup_env (initial_state [] (ascii ''ban cars'')) = Inr u \<and>
     apply_update dedup_env u (initial_state [] (ascii ''ban cars'')) = Inr s1 \<and>
     apply_update dedup_env u s1 = Inr s2 \<and>
     dialogue_history s1 = [human (ascii ''ban cars'')] \<and>
     dialogue_history s2 = [human (ascii ''ban cars''), human (ascii ''ban cars'')] \<and>
     s2 \<noteq> s1"
proof -
  let ?s = "initial_state [] (ascii ''ban cars'')"
  let ?u = "no_update\<lparr>u_round_number := Some 1,
                      u_dialogue_history := Some [human (user_position ?s)]\<rparr>"
  have n: "u_logical_fallacies_found ?u = None" "u_dialogue_history ?u = Some [human (ascii ''ban cars'')]"
    by (simp_all add: no_update_def initial_state_def)
  have e: "merge_messages dedup_env = add_messages" by (simp add: dedup_env_def)
  have w: "mid ` set [human (ascii ''ban cars'')] \<subseteq> {None}" by (simp add: human_def)
  from apply_update_total[OF n(1)] obtain s1 where s1: "apply_update dedup_env ?u ?s = Inr s1"
    by blast
  from apply_update_total[OF n(1)] obtain s2 where s2: "apply_update dedup_env ?u s1 = Inr s2"
    by blast
  from apply_update_fields(10)[OF s1] n(2) e add_messages_without_id[OF w]
  have h1: "dialogue_history s1 = [human (ascii ''ban cars'')]"
    by (simp add: initial_state_def)
  from apply_update_fields(10)[OF s2] n(2) e add_messages_without_id[OF w] h1
  have h2: "dialogue_history s2 = [human (ascii ''ban cars''), human (ascii ''ban cars'')]"
    by simp
  from h1 h2 have "s2 \<noteq> s1" by auto
  moreover have "intake_node dedup_env ?s = Inr ?u" by (simp add: intake_node_def)
  ultimately show ?thesis using s1 s2 h1 h2 by blast
qed

text \<open>
  Claim C7, amended. For every session state and every update whose \<open>dialogue_history\<close>
  messages all have ids, applying the update twice gives the same history as applying it
  once, and the same session when the update writes nothing else: the first application
  merges the messages into the history, the second changes nothing. An incoming message
  whose id is in the history replaces a message there: the ids, in their order, and the
  length of the history stay as they were. A message that has no id, or whose id is not
  in the history, is appended.
\<close>

theorem add_messages_idempotent_with_ids:
  assumes env: "merge_messages env = add_messages"
    and new: "u_dialogue_history u = Some new"
    and ids: "\<forall>m\<in>set new. mid m \<noteq> None"
    and ok: "list_or_absent (u_logical_fallacies_found u)"
  shows "(\<exists>s1 s2. apply_update env u s = Inr s1 \<and> apply_update env u s1 = Inr s2 \<and>
            dialogue_history s1 = add_messages (dialogue_history s) new \<and>
            dialogue_history s2 = dialogue_history s1 \<and>
            (u = no_update\<lparr>u_dialogue_history := Some new\<rparr> \<longrightarrow> s2 = s1)) \<and>
         (mid m \<noteq> None \<and> mid m \<in> mid ` set h \<longrightarrow>
            map mid (add_messages h [m]) = map mid h \<and> m \<in> set (add_messages h [m]) \<and>
            length (add_messages h [m]) = length h) \<and>
         (mid m = None \<or> mid m \<notin> mid ` set h \<longrightarrow> add_messages h [m] = h @ [m])"
proof -
  from ids have n: "None \<notin> mid ` set new" by force
  from apply_update_succeeds[OF ok] obtain s1 where s1: "apply_update env u s = Inr s1"
    by blast
  from apply_update_succeeds[OF ok] obtain s2 where s2: "apply_update env u s1 = Inr s2"
    by blast
  from apply_update_fields(10)[OF s1] new env
  have h1: "dialogue_history s1 = add_messages (dialogue_history s) new" by simp
  from apply_update_fields(10)[OF s2] new env h1 add_messages_twice[OF n]
  have h2: "dialogue_history s2 = dialogue_history s1" by simp
  have eq: "s2 = s1" if "u = no_update\<lparr>u_dialogue_history := Some new\<rparr>"
    using s1 s2 h1 h2 that by (auto simp: apply_update_def no_update_def)
  have p: "mid m \<noteq> None \<and> mid m \<in> mid ` set h \<longrightarrow>
            map mid (add_messages h [m]) = map mid h \<and> m \<in> set (add_messages h [m]) \<and>
            length (add_messages h [m]) = length h"
    using upsert_present[of m h] by (simp add: add_messages_def)
  have q: "mid m = None \<or> mid m \<notin> mid ` set h \<longrightarrow> add_messages h [m] = h @ [m]"
    using upsert_without_id[of m h] upsert_new[of m h] by (auto simp: add_messages_def)
  from s1 s2 h1 h2 eq p q show ?thesis by blast
qed

theorem add_messages_idempotent_with_ids_witness:
  "merge_messages dedup_env = add_messages \<and>
   u_dialogue_history demo_update = Some demo_messages \<and>
   map mid demo_messages = [Some (ascii ''1''), Some (ascii ''2'')] \<and>
   dialogue_history demo_session = [human (ascii ''ban cars'')] @ demo_history \<and>
   (\<exists>s1. apply_update dedup_env demo_update demo_session = Inr s1 \<and>
      apply_update dedup_env demo_update s1 = Inr s1 \<and>
      dialogue_history s1 = [human (ascii ''ban cars'')] @ demo_messages)"
proof -
  have e: "merge_messages dedup_env = add_messages" by (simp add: dedup_env_def)
  have n: "u_dialogue_history demo_update = Some demo_messages" by (simp add: demo_update_def)
  have i: "\<forall>m\<in>set demo_messages. mid m \<noteq> None" by (simp add: demo_messages_def)
  have k: "list_or_absent (u_logical_fallacies_found demo_update)"
    by (simp add: demo_update_def no_update_def)
  have u: "demo_update = no_update\<lparr>u_dialogue_history := Some demo_messages\<rparr>"
    by (simp add: demo_update_def)
  have a: "add_messages (dialogue_history demo_session) demo_messages =
             [human (ascii ''ban cars'')] @ demo_messages"
    by (simp add: add_messages_def demo_session_def demo_history_def demo_messages_def
          initial_state_def human_def ascii_def)
  from add_messages_idempotent_with_ids[OF e n i k, of demo_session] u a
  have "\<exists>s1. apply_update dedup_env demo_update demo_session = Inr s1 \<and>
      apply_update dedup_env demo_update s1 = Inr s1 \<and>
      dialogue_history s1 = [human (ascii ''ban cars'')] @ demo_messages"
    by auto
  moreover have "map mid demo_messages = [Some (ascii ''1''), Some (ascii ''2'')]"
    by (simp add: demo_messages_def)
  moreover have "dialogue_history demo_session = [human (ascii ''ban cars'')] @ demo_history"
    by (simp add: demo_session_def initial_state_def)
  ultimately show ?thesis using e n by simp
qed

text \<open>
  Claim C8. In every reachable state of a run, the verdict is non-empty if and only if the
  session has reached the terminal step: it is created empty, stays empty until
  \<open>final_coach\<close> runs, is written exactly once by \<open>final_coach\<close>, and is never
  revised afterwards.

  The claim fails when the final coach's chat model answers with the empty string: the run
  is over, \<open>final_coach\<close> has run once, and the verdict is empty.
\<close>

theorem empty_reply_leaves_verdict_empty:
  "map_sum id next_nodes (run_session mute_env [] []) = Inr [] \<and>
   map_sum id (\<lambda>st. count_list (ran st) final_coach) (run_session mute_env [] []) = Inr 1 \<and>
   map_sum id (\<lambda>st. verdict (session st)) (run_session mute_env [] []) = Inr []"
proof -
  from steps_succeeds[OF well_behaved_mute] obtain st where
    s: "steps 10 mute_env (start [] []) = Inr st" by blast
  from reach[OF s] have e: "next_nodes st = []" by (simp add: remaining_0)
  from invariant_finished[OF reach(1)[OF s] e]
  have "count_list (ran st) final_coach = 1" "verdict (session st) = []"
    by (auto simp: finished_def mute_env_def)
  with s e show ?thesis by (simp add: run_session_def)
qed

text \<open>
  Claim C8, amended. The verdict is created empty; \<open>final_coach\<close> is the only node that
  writes it; it stays empty as long as \<open>final_coach\<close> has not run; \<open>final_coach\<close>
  runs at most once, and has run exactly when the run is over; the verdict is then the
  reply of the final coach's chat model, and no further step changes the state. So a
  non-empty verdict means that the session has reached the terminal step, and when the
  final coach's reply is never empty the verdict is non-empty if and only if it has.
\<close>

theorem verdict_written_once:
  assumes "steps k env (start t p) = Inr st"
  shows "verdict (session (start t p)) = [] \<and>
         (\<forall>n s u. node_fn env n s = Inr u \<longrightarrow> u_verdict u \<noteq> None \<longrightarrow> n = final_coach) \<and>
         (count_list (ran st) final_coach = 0 \<longrightarrow> verdict (session st) = []) \<and>
         count_list (ran st) final_coach \<le> 1 \<and>
         (count_list (ran st) final_coach = 1 \<longleftrightarrow> next_nodes st = []) \<and>
         (verdict (session st) \<noteq> [] \<longrightarrow> next_nodes st = []) \<and>
         (next_nodes st = [] \<longrightarrow>
            (\<exists>s. chat env final_coach s = Some (verdict (session st))) \<and>
            (\<forall>j. steps j env st = Inr st)) \<and>
         ((\<forall>s. chat env final_coach s \<noteq> Some []) \<longrightarrow>
            (verdict (session st) \<noteq> [] \<longleftrightarrow> next_nodes st = []))"
proof -
  note inv = reach(1)[OF assms]
  have a: "verdict (session (start t p)) = []"
    by (simp add: start_def initial_state_def)
  have b: "\<forall>n s u. node_fn env n s = Inr u \<longrightarrow> u_verdict u \<noteq> None \<longrightarrow> n = final_coach"
    using node_fn_verdict by (metis (full_types))
  have c: "next_nodes st = [] \<longrightarrow>
            (\<exists>s. chat env final_coach s = Some (verdict (session st))) \<and>
            (\<forall>j. steps j env st = Inr st)"
    using invariant_finished[OF inv] steps_finished by (auto simp: finished_def)
  have d: "verdict (session st) \<noteq> [] \<longrightarrow> next_nodes st = []"
    using invariant_verdict(4)[OF inv] by blast
  have e: "(\<forall>s. chat env final_coach s \<noteq> Some []) \<longrightarrow>
            (verdict (session st) \<noteq> [] \<longleftrightarrow> next_nodes st = [])"
    using c d by metis
  from a b c d e invariant_verdict(1,2,3)[OF inv] show ?thesis by blast
qed

theorem verdict_written_once_witness:
  "\<exists>st. run_session demo_env [] [] = Inr st \<and> next_nodes st = [] \<and>
     count_list (ran st) final_coach = 1 \<and> verdict (session st) = ascii ''Tip: cite evidence''"
proof -
  from steps_succeeds[OF well_behaved_demo] obtain st where
    s: "steps 10 demo_env (start [] []) = Inr st" by blast
  from reach[OF s] have e: "next_nodes st = []" by (simp add: remaining_0)
  from verdict_written_once[OF s] e
  have "count_list (ran st) final_coach = 1"
    "\<exists>s. chat demo_env final_coach s = Some (verdict (session st))"
    by blast+
  then have "count_list (ran st) final_coach = 1" "verdict (session st) = ascii ''Tip: cite evidence''"
    by (auto simp: demo_env_def)
  with s e show ?thesis by (simp add: run_session_def)
qed

text \<open>
  Claim C10. In every run, \<open>coaching_tips\<close> is written by exactly one node,
  \<open>final_coach_node\<close>, exactly once, and the update it returns holds at most 5
  entries, only report lines that begin with a bullet or numbering marker, cut to the
  first five; so the \<open>coaching_tips\<close> of a terminated session has at most 5 elements.

  The claim fails on the lines it says are kept: a line that begins with \<open>Tip\<close> is
  kept as well, and it begins with neither a bullet nor a number.
\<close>

theorem tip_line_without_marker:
  "map_sum id u_coaching_tips (final_coach_node demo_env (initial_state [] [])) =
     Inr (Some [ascii ''Tip: cite evidence'']) \<and>
   \<not> begins_with_bullet_or_number (ascii ''Tip: cite evidence'')"
  by (simp add: final_coach_node_def demo_env_def no_update_def tips_demo
        begins_with_bullet_or_number_def)
     (simp add: ascii_def)

text \<open>
  Claim C10, amended. \<open>final_coach_node\<close> is the only node whose update holds
  \<open>coaching_tips\<close>; that update holds at most 5 entries: the first five of the stripped
  lines of the report that begin with one of the bullet U+2022, \<open>-\<close>, \<open>Tip\<close>,
  \<open>1.\<close>, \<open>2.\<close>, \<open>3.\<close>. In a run \<open>final_coach\<close> runs at most once, and has run
  exactly when the run is over; before, \<open>coaching_tips\<close> is empty; so in every state
  of a run, the terminated one too, \<open>coaching_tips\<close> has at most 5 elements, each
  beginning with one of the six prefixes.
\<close>

theorem coaching_tips_at_most_five:
  assumes "steps k env (start t p) = Inr st"
  shows "coaching_tips (session (start t p)) = [] \<and>
         (\<forall>n s u tips. node_fn env n s = Inr u \<longrightarrow> u_coaching_tips u = Some tips \<longrightarrow>
            n = final_coach \<and> length tips \<le> 5 \<and>
            (\<exists>report. chat env final_coach s = Some report \<and> tips = take 5 (extract_tips report)) \<and>
            list_all (\<lambda>tip. startswith_any tip tip_prefixes) tips) \<and>
         extract_tips report =
           map strip (filter (\<lambda>line. startswith_any (strip line) tip_prefixes) (split_on 10 report)) \<and>
         count_list (ran st) final_coach \<le> 1 \<and>
         (count_list (ran st) final_coach = 0 \<longrightarrow> coaching_tips (session st) = []) \<and>
         (count_list (ran st) final_coach = 1 \<longleftrightarrow> next_nodes st = []) \<and>
         (next_nodes st = [] \<longrightarrow>
            coaching_tips (session st) = take 5 (extract_tips (verdict (session st)))) \<and>
         length (coaching_tips (session st)) \<le> 5 \<and>
         list_all (\<lambda>tip. startswith_any tip tip_prefixes) (coaching_tips (session st))"
proof -
  note inv = reach(1)[OF assms]
  have a: "coaching_tips (session (start t p)) = []"
    by (simp add: start_def initial_state_def)
  have pre: "list_all (\<lambda>tip. startswith_any tip tip_prefixes) (take 5 (extract_tips r))" for r
    using extract_tips_prefixed[of r] by (auto simp: list_all_iff dest: in_set_takeD)
  have b: "\<forall>n s u tips. node_fn env n s = Inr u \<longrightarrow> u_coaching_tips u = Some tips \<longrightarrow>
            n = final_coach \<and> length tips \<le> 5 \<and>
            (\<exists>report. chat env final_coach s = Some report \<and> tips = take 5 (extract_tips report)) \<and>
            list_all (\<lambda>tip. startswith_any tip tip_prefixes) tips"
  proof (intro allI impI)
    fix n s u tips assume n: "node_fn env n s = Inr u" and u: "u_coaching_tips u = Some tips"
    from node_fn_coaching_tips[OF n] u have f: "n = final_coach"
      by (auto split: if_splits)
    with node_fn_coaching_tips[OF n] u obtain r where
      r: "chat env final_coach s = Some r" "tips = take 5 (extract_tips r)"
      by (cases "chat env final_coach s") auto
    with f pre[of r]
    show "n = final_coach \<and> length tips \<le> 5 \<and>
            (\<exists>report. chat env final_coach s = Some report \<and> tips = take 5 (extract_tips report)) \<and>
            list_all (\<lambda>tip. startswith_any tip tip_prefixes) tips"
      by simp
  qed
  have c: "extract_tips report =
           map strip (filter (\<lambda>line. startswith_any (strip line) tip_prefixes) (split_on 10 report))"
    by (simp add: extract_tips_def)
  have d: "next_nodes st = [] \<longrightarrow>
            coaching_tips (session st) = take 5 (extract_tips (verdict (session st)))"
    using invariant_finished[OF inv] by (simp add: finished_def)
  have e: "length (coaching_tips (session st)) \<le> 5 \<and>
         list_all (\<lambda>tip. startswith_any tip tip_prefixes) (coaching_tips (session st))"
  proof (cases "next_nodes st = []")
    case True
    with d pre[of "verdict (session st)"] show ?thesis by simp
  next
    case False
    with invariant_verdict(4)[OF inv] show ?thesis by simp
  qed
  from a b c d e invariant_verdict(1,2,3)[OF inv] show ?thesis by blast
qed

theorem coaching_tips_at_most_five_witness:
  "\<exists>st. run_session demo_env [] [] = Inr st \<and> next_nodes st = [] \<and>
     count_list (ran st) final_coach = 1 \<and>
     coaching_tips (session st) = [ascii ''Tip: cite evidence''] \<and>
     length (coaching_tips (session st)) \<le> 5"
proof -
  from steps_succeeds[OF well_behaved_demo] obtain st where
    s: "steps 10 demo_env (start [] []) = Inr st" by blast
  from reach[OF s] have e: "next_nodes st = []" by (simp add: remaining_0)
  from invariant_finished[OF reach(1)[OF s] e]
  have v: "verdict (session st) = ascii ''Tip: cite evidence''"
    by (auto simp: finished_def demo_env_def)
  from coaching_tips_at_most_five[OF s] e
  have "count_list (ran st) final_coach = 1"
    "coaching_tips (session st) = take 5 (extract_tips (verdict (session st)))"
    "length (coaching_tips (session st)) \<le> 5"
    by blast+
  with v s e show ?thesis by (simp add: run_session_def tips_demo)
qed

end
